theory Spec2Isabelle
  imports Complex_Main "HOL-Library.Sublist"
begin

section \<open>Strings and numbers of the host language\<close>

text \<open>
  Strings are lists of 8-bit characters. \<open>msg.includes(s)\<close> holds when \<open>s\<close> occurs in
  \<open>msg\<close> as a contiguous run, \<open>d.endsWith(s)\<close> when \<open>s\<close> is a suffix of \<open>d\<close>, and
  \<open>d.slice(0, -1)\<close> drops the last character.
\<close>

definition includes_str :: "string \<Rightarrow> string \<Rightarrow> bool" where
  "includes_str msg s = sublist s msg"

definition endsWith :: "string \<Rightarrow> string \<Rightarrow> bool" where
  "endsWith d s = suffix s d"

definition slice_0_m1 :: "string \<Rightarrow> string" where
  "slice_0_m1 d = butlast d"

text \<open>
  A number is a finite value, one of the two infinities or NaN. Finite values are exact
  rationals: the rounding and the overflow of IEEE doubles are not modelled, and \<open>-0\<close>
  is \<open>0\<close>.
\<close>

datatype number = NaN | Infinity | NegInfinity | Num rat

definition is_digit :: "char \<Rightarrow> bool" where
  "is_digit c = (48 \<le> (of_char c :: nat) \<and> (of_char c :: nat) \<le> 57)"

definition digit_val :: "char \<Rightarrow> nat" where
  "digit_val c = of_char c - 48"

definition digits_val :: "string \<Rightarrow> nat" where
  "digits_val ds = foldl (\<lambda>a c. 10 * a + digit_val c) 0 ds"

text \<open>White space that \<open>parseFloat\<close> skips: tab, line feed, vertical tab, form feed,
  carriage return, space and the no-break space.\<close>

definition is_StrWhiteSpaceChar :: "char \<Rightarrow> bool" where
  "is_StrWhiteSpaceChar c = ((of_char c :: nat) \<in> {9, 10, 11, 12, 13, 32, 160})"

definition scale10 :: "rat \<Rightarrow> int \<Rightarrow> rat" where
  "scale10 m e = (if 0 \<le> e then m * 10 ^ nat e else m / 10 ^ nat (- e))"

text \<open>The exponent part \<open>[eE][+-]?digits\<close>; it counts only when it is complete.\<close>

definition exponent_part :: "string \<Rightarrow> int" where
  "exponent_part r =
     (case r of
        [] \<Rightarrow> 0
      | c # r1 \<Rightarrow>
          if c = CHR ''e'' \<or> c = CHR ''E'' then
            (case r1 of
               [] \<Rightarrow> 0
             | s # r2 \<Rightarrow>
                 if s = CHR ''-'' then
                   (if takeWhile is_digit r2 = [] then 0
                    else - int (digits_val (takeWhile is_digit r2)))
                 else if s = CHR ''+'' then int (digits_val (takeWhile is_digit r2))
                 else int (digits_val (takeWhile is_digit r1)))
          else 0)"

text \<open>
  \<open>parseFloat\<close>: leading white space is skipped, then the longest prefix that is a
  decimal literal (a sign, \<open>Infinity\<close> or digits with an optional fraction and
  exponent) is read; NaN when there is none.
\<close>

definition unsigned_literal :: "string \<Rightarrow> number" where
  "unsigned_literal u =
     (if prefix ''Infinity'' u then Infinity
      else
        let ip = takeWhile is_digit u;
            r1 = dropWhile is_digit u;
            dot = (r1 \<noteq> [] \<and> hd r1 = CHR ''.'');
            fp = (if dot then takeWhile is_digit (tl r1) else []);
            r2 = (if dot then dropWhile is_digit (tl r1) else r1)
        in if ip = [] \<and> fp = [] then NaN
           else Num (scale10 (of_nat (digits_val (ip @ fp)) / 10 ^ length fp)
                       (exponent_part r2)))"

definition negate :: "number \<Rightarrow> number" where
  "negate x = (case x of NaN \<Rightarrow> NaN | Infinity \<Rightarrow> NegInfinity
               | NegInfinity \<Rightarrow> Infinity | Num r \<Rightarrow> Num (- r))"

definition parseFloat :: "string \<Rightarrow> number" where
  "parseFloat s =
     (case dropWhile is_StrWhiteSpaceChar s of
        [] \<Rightarrow> NaN
      | c # r \<Rightarrow>
          if c = CHR ''-'' then negate (unsigned_literal r)
          else if c = CHR ''+'' then unsigned_literal r
          else unsigned_literal (c # r))"

text \<open>\<open>Math.ceil(sec * 1000)\<close>.\<close>

definition ceil_ms :: "number \<Rightarrow> number" where
  "ceil_ms sec = (case sec of Num r \<Rightarrow> Num (of_int \<lceil>r * 1000\<rceil>) | x \<Rightarrow> x)"

section \<open>JSON documents\<close>

text \<open>
  The values \<open>JSON.parse\<close> returns. An object keeps its members in the order of the
  text; a later member with the same key overrides an earlier one when a property is
  read.
\<close>

datatype json =
    JNull
  | JBool bool
  | JNumber rat
  | JString string
  | JArray "json list"
  | JObject "(string \<times> json) list"

definition is_json_ws :: "char \<Rightarrow> bool" where
  "is_json_ws c = ((of_char c :: nat) \<in> {9, 10, 13, 32})"

definition skip_ws :: "string \<Rightarrow> string" where
  "skip_ws s = dropWhile is_json_ws s"

definition hex_val :: "char \<Rightarrow> nat option" where
  "hex_val c =
     (let n = (of_char c :: nat) in
      if 48 \<le> n \<and> n \<le> 57 then Some (n - 48)
      else if 65 \<le> n \<and> n \<le> 70 then Some (n - 55)
      else if 97 \<le> n \<and> n \<le> 102 then Some (n - 87)
      else None)"

definition hex4 :: "char \<Rightarrow> char \<Rightarrow> char \<Rightarrow> char \<Rightarrow> nat option" where
  "hex4 a b c d =
     (case (hex_val a, hex_val b, hex_val c, hex_val d) of
        (Some x, Some y, Some z, Some w) \<Rightarrow> Some (((x * 16 + y) * 16 + z) * 16 + w)
      | _ \<Rightarrow> None)"

text \<open>The character a one-letter escape stands for.\<close>

definition unescape :: "char \<Rightarrow> char option" where
  "unescape e =
     (if e = CHR 0x22 then Some (CHR 0x22)
      else if e = CHR 0x5C then Some (CHR 0x5C)
      else if e = CHR ''/'' then Some (CHR ''/'')
      else if e = CHR ''b'' then Some (CHR 0x08)
      else if e = CHR ''f'' then Some (CHR 0x0C)
      else if e = CHR ''n'' then Some (CHR 0x0A)
      else if e = CHR ''r'' then Some (CHR 0x0D)
      else if e = CHR ''t'' then Some (CHR 0x09)
      else None)"

text \<open>
  The body of a string literal, after its opening quote, up to the closing quote. A
  \<open>\u\<close> escape above \<open>00FF\<close> has no 8-bit character and is refused: such documents are
  outside this model.
\<close>

fun parse_string :: "string \<Rightarrow> string \<Rightarrow> (string \<times> string) option" where
  "parse_string [] acc = None"
| "parse_string (c # cs) acc =
     (if c = CHR 0x22 then Some (acc, cs)
      else if c = CHR 0x5C then
        (case cs of
           [] \<Rightarrow> None
         | e # r \<Rightarrow>
             if e = CHR ''u'' then
               (case r of
                  h1 # h2 # h3 # h4 # r' \<Rightarrow>
                    (case hex4 h1 h2 h3 h4 of
                       None \<Rightarrow> None
                     | Some n \<Rightarrow>
                         if n < 256 then parse_string r' (acc @ [char_of n]) else None)
                | _ \<Rightarrow> None)
             else
               (case unescape e of
                  None \<Rightarrow> None
                | Some ch \<Rightarrow> parse_string r (acc @ [ch])))
      else if (of_char c :: nat) < 32 then None
      else parse_string cs (acc @ [c]))"

text \<open>A number literal: \<open>-?(0|[1-9][0-9]*)(.[0-9]+)?([eE][+-]?[0-9]+)?\<close>.\<close>

definition parse_exponent :: "string \<Rightarrow> (int \<times> string) option" where
  "parse_exponent r =
     (if r \<noteq> [] \<and> (hd r = CHR ''e'' \<or> hd r = CHR ''E'') then
        (let r1 = tl r;
             neg = (r1 \<noteq> [] \<and> hd r1 = CHR ''-'');
             r2 = (if r1 \<noteq> [] \<and> (hd r1 = CHR ''-'' \<or> hd r1 = CHR ''+'') then tl r1 else r1);
             ds = takeWhile is_digit r2
         in if ds = [] then None
            else Some ((if neg then - int (digits_val ds) else int (digits_val ds)),
                       dropWhile is_digit r2))
      else Some (0, r))"

definition parse_fraction :: "string \<Rightarrow> (string \<times> string) option" where
  "parse_fraction r =
     (if r \<noteq> [] \<and> hd r = CHR ''.'' then
        (if takeWhile is_digit (tl r) = [] then None
         else Some (takeWhile is_digit (tl r), dropWhile is_digit (tl r)))
      else Some ([], r))"

definition parse_number :: "string \<Rightarrow> (rat \<times> string) option" where
  "parse_number s =
     (let neg = (s \<noteq> [] \<and> hd s = CHR ''-'');
          u = (if neg then tl s else s);
          ip = (if u \<noteq> [] \<and> hd u = CHR ''0'' then ''0'' else takeWhile is_digit u);
          r1 = drop (length ip) u
      in if ip = [] then None
         else
           (case parse_fraction r1 of
              None \<Rightarrow> None
            | Some (fp, r2) \<Rightarrow>
                (case parse_exponent r2 of
                   None \<Rightarrow> None
                 | Some (e, r3) \<Rightarrow>
                     let m = scale10 (of_nat (digits_val (ip @ fp)) / 10 ^ length fp) e
                     in Some ((if neg then - m else m), r3))))"

text \<open>A value that holds no other value: a string, \<open>true\<close>, \<open>false\<close>, \<open>null\<close> or a
  number.\<close>

definition parse_scalar :: "string \<Rightarrow> (json \<times> string) option" where
  "parse_scalar s =
     (if s \<noteq> [] \<and> hd s = CHR 0x22 then
        (case parse_string (tl s) [] of
           None \<Rightarrow> None
         | Some (str, r) \<Rightarrow> Some (JString str, r))
      else if prefix ''true'' s then Some (JBool True, drop 4 s)
      else if prefix ''false'' s then Some (JBool False, drop 5 s)
      else if prefix ''null'' s then Some (JNull, drop 4 s)
      else
        (case parse_number s of
           None \<Rightarrow> None
         | Some (x, r) \<Rightarrow> Some (JNumber x, r)))"

text \<open>The key of an object member with its colon: \<open>"key" :\<close> and the white space
  around the colon.\<close>

definition member_key :: "string \<Rightarrow> (string \<times> string) option" where
  "member_key s =
     (if s \<noteq> [] \<and> hd s = CHR 0x22 then
        (case parse_string (tl s) [] of
           None \<Rightarrow> None
         | Some (k, r1) \<Rightarrow>
             if skip_ws r1 \<noteq> [] \<and> hd (skip_ws r1) = CHR '':''
             then Some (k, skip_ws (tl (skip_ws r1)))
             else None)
      else None)"

text \<open>
  Values, array elements and object members, by recursive descent. The first argument
  bounds the number of nested calls; \<open>JSON_parse\<close> starts with more than any document
  of its length can use.
\<close>

fun parse_value :: "nat \<Rightarrow> string \<Rightarrow> (json \<times> string) option"
  and parse_elements :: "nat \<Rightarrow> string \<Rightarrow> json list \<Rightarrow> (json \<times> string) option"
  and parse_members :: "nat \<Rightarrow> string \<Rightarrow> (string \<times> json) list \<Rightarrow> (json \<times> string) option"
where
  "parse_value 0 s = None"
| "parse_value (Suc n) s =
     (if s \<noteq> [] \<and> hd s = CHR ''{'' then
        (if skip_ws (tl s) \<noteq> [] \<and> hd (skip_ws (tl s)) = CHR ''}''
         then Some (JObject [], tl (skip_ws (tl s)))
         else parse_members n (skip_ws (tl s)) [])
      else if s \<noteq> [] \<and> hd s = CHR ''['' then
        (if skip_ws (tl s) \<noteq> [] \<and> hd (skip_ws (tl s)) = CHR '']''
         then Some (JArray [], tl (skip_ws (tl s)))
         else parse_elements n (skip_ws (tl s)) [])
      else parse_scalar s)"
| "parse_elements 0 s acc = None"
| "parse_elements (Suc n) s acc =
     (case parse_value n s of
        None \<Rightarrow> None
      | Some (v, r) \<Rightarrow>
          (case skip_ws r of
             [] \<Rightarrow> None
           | d # r' \<Rightarrow>
               if d = CHR '','' then parse_elements n (skip_ws r') (acc @ [v])
               else if d = CHR '']'' then Some (JArray (acc @ [v]), r')
               else None))"
| "parse_members 0 s acc = None"
| "parse_members (Suc n) s acc =
     (case member_key s of
        None \<Rightarrow> None
      | Some (k, r) \<Rightarrow>
          (case parse_value n r of
             None \<Rightarrow> None
           | Some (v, r') \<Rightarrow>
               (case skip_ws r' of
                  [] \<Rightarrow> None
                | d # r'' \<Rightarrow>
                    if d = CHR '','' then parse_members n (skip_ws r'') (acc @ [(k, v)])
                    else if d = CHR ''}'' then Some (JObject (acc @ [(k, v)]), r'')
                    else None)))"

text \<open>\<open>JSON.parse\<close>: the whole text is one value between white space; \<open>None\<close> is the
  SyntaxError it throws otherwise.\<close>

definition JSON_parse :: "string \<Rightarrow> json option" where
  "JSON_parse s =
     (case parse_value (2 * length s + 2) (skip_ws s) of
        None \<Rightarrow> None
      | Some (v, r) \<Rightarrow> if skip_ws r = [] then Some v else None)"

section \<open>Retry policy\<close>

text \<open>
  A failure is whatever a unit of work throws. The code reads two things of it: whether
  it is an \<open>Error\<close> instance and its \<open>message\<close> (\<open>None\<close> when the thrown value has
  none); \<open>rest\<close> stands for everything else, so that two failures with the same message
  can still be told apart.
\<close>

record 'x failure =
  instanceof_Error :: bool
  message :: "string option"
  rest :: 'x

datatype js_error = SyntaxError | TypeError

text \<open>Reading a property of a value that is neither null nor undefined. Only own
  members of an object answer to the keys read here.\<close>

definition get_prop :: "json \<Rightarrow> string \<Rightarrow> json option" where
  "get_prop v k = (case v of JObject kvs \<Rightarrow> map_of (rev kvs) k | _ \<Rightarrow> None)"

text \<open>\<open>x?.k\<close>\<close>

definition opt_chain :: "json option \<Rightarrow> string \<Rightarrow> json option" where
  "opt_chain x k = (case x of None \<Rightarrow> None | Some JNull \<Rightarrow> None | Some v \<Rightarrow> get_prop v k)"

definition truthy :: "json \<Rightarrow> bool" where
  "truthy v =
     (case v of
        JNull \<Rightarrow> False
      | JBool b \<Rightarrow> b
      | JNumber r \<Rightarrow> r \<noteq> 0
      | JString s \<Rightarrow> s \<noteq> []
      | JArray _ \<Rightarrow> True
      | JObject _ \<Rightarrow> True)"

text \<open>\<open>x || []\<close>\<close>

definition or_empty :: "json option \<Rightarrow> json" where
  "or_empty x = (case x of None \<Rightarrow> JArray [] | Some v \<Rightarrow> if truthy v then v else JArray [])"

definition RetryInfo :: string where
  "RetryInfo = ''type.googleapis.com/google.rpc.RetryInfo''"

text \<open>\<open>details.find((d) => d["@type"] === RetryInfo)\<close>: the first entry that matches.
  Reading \<open>d["@type"]\<close> of a null entry throws; calling \<open>find\<close> on anything but an
  array throws.\<close>

fun find_RetryInfo :: "json list \<Rightarrow> js_error + json option" where
  "find_RetryInfo [] = Inr None"
| "find_RetryInfo (d # ds) =
     (case d of
        JNull \<Rightarrow> Inl TypeError
      | _ \<Rightarrow> if get_prop d ''@type'' = Some (JString RetryInfo) then Inr (Some d)
             else find_RetryInfo ds)"

definition details_find :: "json \<Rightarrow> js_error + json option" where
  "details_find details = (case details of JArray ds \<Rightarrow> find_RetryInfo ds | _ \<Rightarrow> Inl TypeError)"

text \<open>Lines 67 to 70: a truthy \<open>delay\<close> that is not a string has no \<open>endsWith\<close> to
  call, which throws.\<close>

definition delay_ms :: "json option \<Rightarrow> js_error + number option" where
  "delay_ms delay =
     (case delay of
        None \<Rightarrow> Inr None
      | Some v \<Rightarrow>
          if \<not> truthy v then Inr None
          else
            (case v of
               JString d \<Rightarrow>
                 if endsWith d ''s'' then
                   (let sec = parseFloat (slice_0_m1 d)
                    in if sec \<noteq> NaN then Inr (Some (ceil_ms sec)) else Inr None)
                 else Inr None
             | _ \<Rightarrow> Inl TypeError))"

text \<open>\<open>data?.error?.details\<close>\<close>

definition error_details :: "json \<Rightarrow> json option" where
  "error_details data = opt_chain (opt_chain (Some data) ''error'') ''details''"

text \<open>The body of the \<open>try\<close> block of \<open>parseRetryDelayMs\<close>.\<close>

definition try_body :: "string \<Rightarrow> js_error + number option" where
  "try_body str =
     (case JSON_parse str of
        None \<Rightarrow> Inl SyntaxError
      | Some data \<Rightarrow>
          (case details_find (or_empty (error_details data)) of
             Inl err \<Rightarrow> Inl err
           | Inr ri \<Rightarrow> delay_ms (opt_chain ri ''retryDelay'')))"

definition parseRetryDelayMs :: "'x failure \<Rightarrow> number option" where
  "parseRetryDelayMs e =
     (case message e of
        None \<Rightarrow> None
      | Some str \<Rightarrow>
          if str = [] then None
          else (case try_body str of Inl _ \<Rightarrow> None | Inr r \<Rightarrow> r))"

definition isRateLimited :: "'x failure \<Rightarrow> bool" where
  "isRateLimited e =
     (let msg = (case message e of None \<Rightarrow> [] | Some m \<Rightarrow> m)
      in includes_str msg ''RESOURCE_EXHAUSTED'' \<or> includes_str msg ''Too Many Requests''
         \<or> includes_str msg ''quota'')"

text \<open>Line 89: the wait before the retry that follows attempt \<open>attempt\<close>.\<close>

definition retry_delay :: "'x failure \<Rightarrow> nat \<Rightarrow> number" where
  "retry_delay e attempt =
     (case parseRetryDelayMs e of Some d \<Rightarrow> d | None \<Rightarrow> Num (2000 * 2 ^ attempt))"

text \<open>
  A unit of work is a computation over some state of the world \<open>'s\<close>: each call either
  fails (\<open>Inl\<close>) or returns a value (\<open>Inr\<close>), and leaves a new state. \<open>withRetries\<close>
  yields what it throws (\<open>Inl\<close>, the last failure, \<open>None\<close> when it never caught one) or
  returns (\<open>Inr\<close>), the final state, and the calls of the work and the waits it made, in
  order. The loop of lines 83 to 96 is the recursion; where the code leaves the loop with
  \<open>break\<close>, \<open>lastErr\<close> is the failure just caught, and line 97 throws it.
\<close>

datatype effect = Invoke | Sleep number

function withRetries_loop ::
  "('s \<Rightarrow> ('x failure + 'a) \<times> 's) \<Rightarrow> int \<Rightarrow> nat \<Rightarrow> 'x failure option \<Rightarrow> 's \<Rightarrow> effect list
     \<Rightarrow> ('x failure option + 'a) \<times> 's \<times> effect list" where
  "withRetries_loop work maxRetries attempt lastErr s tr =
     (if int attempt \<le> maxRetries then
        (case work s of
           (Inr v, s') \<Rightarrow> (Inr v, s', tr @ [Invoke])
         | (Inl e, s') \<Rightarrow>
             if isRateLimited e \<and> int attempt < maxRetries then
               withRetries_loop work maxRetries (attempt + 1) (Some e) s'
                 (tr @ [Invoke, Sleep (retry_delay e attempt)])
             else (Inl (Some e), s', tr @ [Invoke]))
      else (Inl lastErr, s, tr))"
  by pat_completeness auto
termination
  by (relation "measure (\<lambda>(work, maxRetries, attempt, lastErr, s, tr). nat (maxRetries + 1 - int attempt))") auto

definition withRetries ::
  "('s \<Rightarrow> ('x failure + 'a) \<times> 's) \<Rightarrow> int \<Rightarrow> 's
     \<Rightarrow> ('x failure option + 'a) \<times> 's \<times> effect list" where
  "withRetries work maxRetries s = withRetries_loop work maxRetries 0 None s []"

section \<open>The catch handler of \<open>/api/edit-image\<close>\<close>

record response =
  status :: nat
  success :: bool
  error :: string
  retryAfterMs :: "number option"

definition edit_image_catch :: "'x failure \<Rightarrow> response" where
  "edit_image_catch err =
     (let msg = (if instanceof_Error err
                 then (case message err of None \<Rightarrow> [] | Some m \<Rightarrow> m)
                 else ''Unknown error'');
          st = (if includes_str msg ''RESOURCE_EXHAUSTED'' \<or> includes_str msg ''Too Many Requests''
                then 429 else 500)
      in \<lparr>status = st, success = False, error = msg, retryAfterMs = parseRetryDelayMs err\<rparr>)"

subsection \<open>Example units of work\<close>

text \<open>A unit of work that fails on every call with the message \<open>RESOURCE_EXHAUSTED\<close>;
  the state counts the calls, and each failure carries the number of the call that threw
  it.\<close>

definition exhausted_work :: "nat \<Rightarrow> (nat failure + unit) \<times> nat" where
  "exhausted_work n =
     (Inl \<lparr>instanceof_Error = True, message = Some ''RESOURCE_EXHAUSTED'', rest = n\<rparr>, Suc n)"

text \<open>A unit of work that fails on every call with a message that names no rate limit.\<close>

definition denied_work :: "nat \<Rightarrow> (nat failure + unit) \<times> nat" where
  "denied_work n =
     (Inl \<lparr>instanceof_Error = True, message = Some ''API key not valid'', rest = n\<rparr>, Suc n)"



definition negative_doc :: string where
  \<open>negative_doc = ''{"error":{"code":429,"status":"RESOURCE_EXHAUSTED","details":[{"@type":"type.googleapis.com/google.rpc.Help"},{"@type":"type.googleapis.com/google.rpc.RetryInfo","retryDelay":"-3s"}]}}''\<close>

text \<open>A unit of work that fails with the given message on its first call and returns
  the call's number on every later one.\<close>

definition fails_once :: "string \<Rightarrow> nat \<Rightarrow> (unit failure + nat) \<times> nat" where
  "fails_once m n =
     (if n = 0 then Inl \<lparr>instanceof_Error = True, message = Some m, rest = ()\<rparr> else Inr n,
      Suc n)"

text \<open>Documents without a usable hint: no \<open>details\<close> member, no RetryInfo entry, a
  RetryInfo entry without \<open>retryDelay\<close>, and a delay given in minutes. The last
  document holds two RetryInfo entries.\<close>

definition no_details_doc :: string where
  \<open>no_details_doc = ''{"error":{"code":429,"status":"RESOURCE_EXHAUSTED"}}''\<close>

definition no_RetryInfo_doc :: string where
  \<open>no_RetryInfo_doc = ''{"error":{"status":"RESOURCE_EXHAUSTED","details":[{"@type":"type.googleapis.com/google.rpc.Help"}]}}''\<close>

definition no_retryDelay_doc :: string where
  \<open>no_retryDelay_doc = ''{"error":{"status":"RESOURCE_EXHAUSTED","details":[{"@type":"type.googleapis.com/google.rpc.RetryInfo"}]}}''\<close>

definition minutes_doc :: string where
  \<open>minutes_doc = ''{"error":{"status":"RESOURCE_EXHAUSTED","details":[{"@type":"type.googleapis.com/google.rpc.RetryInfo","retryDelay":"2m"}]}}''\<close>


text \<open>Entries of a \<open>details\<close> array, and the value of \<open>two_hints_doc\<close>.\<close>

definition help_entry :: json where
  "help_entry = JObject [(''@type'', JString ''type.googleapis.com/google.rpc.Help'')]"

definition hint_entry :: "string \<Rightarrow> json" where
  "hint_entry d = JObject [(''@type'', JString RetryInfo), (''retryDelay'', JString d)]"


section \<open>The Throttler\<close>

text \<open>
  What a unit of work settles with, and what \<open>schedule\<close> then passes to \<open>resolve\<close> or
  \<open>reject\<close> of the promise it returned.
\<close>

datatype ('e, 'a) outcome = Resolved 'a | Rejected 'e

text \<open>
  Every call of \<open>schedule\<close> creates one closure \<open>run\<close> and one promise. The calls are
  numbered in the order in which they are made, and each is in one of four places:
  its \<open>run\<close> sits in \<open>this.queue\<close>; \<open>run\<close> is suspended in line 31 until its timer,
  set for the given time, has fired; \<open>run\<close> has called \<open>fn\<close> in line 34 and is suspended
  until it settles; or \<open>run\<close> has passed the outcome to \<open>resolve\<close> or \<open>reject\<close>.
\<close>

datatype ('e, 'a) call = Queued | Sleeping int | Executing | Settled "('e, 'a) outcome"

text \<open>
  The fields of the class (\<open>interval\<close>, \<open>lastTime\<close>, \<open>running\<close>, \<open>queue\<close>, the queue
  holding the numbers of the calls whose \<open>run\<close> it holds), and the world around them:
  the clock that \<open>Date.now()\<close> reads, the calls of \<open>schedule\<close> made so far, and the log
  of the starts of units of work, each with the number of its call and the time written
  to \<open>lastTime\<close> in line 32.
\<close>

record ('e, 'a) throttler =
  interval :: int
  lastTime :: int
  running :: bool
  queue :: "nat list"
  clock :: int
  calls :: "('e, 'a) call list"
  dispatched :: "(nat \<times> int) list"

text \<open>\<open>new Throttler(interval)\<close>, created when the clock reads \<open>c0\<close>.\<close>

definition init :: "int \<Rightarrow> int \<Rightarrow> ('e, 'a) throttler" where
  "init i c0 =
     \<lparr>interval = i, lastTime = 0, running = False, queue = [], clock = c0, calls = [],
      dispatched = []\<rparr>"

text \<open>Lines 32 to 34: \<open>this.lastTime = Date.now()\<close>, then \<open>fn()\<close> is called.\<close>

definition invoke :: "nat \<Rightarrow> ('e, 'a) throttler \<Rightarrow> ('e, 'a) throttler" where
  "invoke k s =
     s\<lparr>lastTime := clock s,
       calls := (calls s)[k := Executing],
       dispatched := dispatched s @ [(k, clock s)]\<rparr>"

text \<open>
  Lines 29 to 34, up to the first suspension of \<open>run\<close>. When there is nothing to wait
  for, \<open>run\<close> goes on without suspending; \<open>dt\<close> is the time that passes between the
  two readings of the clock in lines 29 and 32. Otherwise a timer is set that fires
  \<open>wait\<close> milliseconds after \<open>now\<close>.
\<close>

definition run :: "nat \<Rightarrow> nat \<Rightarrow> ('e, 'a) throttler \<Rightarrow> ('e, 'a) throttler" where
  "run k dt s =
     (let now = clock s;
          wait = max 0 (lastTime s + interval s - now)
      in if wait > 0 then s\<lparr>calls := (calls s)[k := Sleeping (now + wait)]\<rparr>
         else invoke k (s\<lparr>clock := clock s + int dt\<rparr>))"

text \<open>
  Lines 35 to 45, when the unit of work of call \<open>k\<close> has settled: the outcome goes to
  \<open>resolve\<close> or \<open>reject\<close>, and the \<open>finally\<close> block starts the \<open>run\<close> at the head of
  the queue, if there is one.
\<close>

definition settle ::
  "nat \<Rightarrow> ('e, 'a) outcome \<Rightarrow> nat \<Rightarrow> ('e, 'a) throttler \<Rightarrow> ('e, 'a) throttler" where
  "settle k out dt s =
     (let s1 = s\<lparr>calls := (calls s)[k := Settled out], running := False\<rparr>
      in case queue s1 of
           [] \<Rightarrow> s1
         | next # waiting \<Rightarrow> run next dt (s1\<lparr>queue := waiting, running := True\<rparr>))"

text \<open>Lines 27 to 53: a call of \<open>schedule\<close>. The new call gets the next number.\<close>

definition schedule :: "nat \<Rightarrow> ('e, 'a) throttler \<Rightarrow> ('e, 'a) throttler" where
  "schedule dt s =
     (let k = length (calls s);
          s1 = s\<lparr>calls := calls s @ [Queued]\<rparr>
      in if \<not> running s1 then run k dt (s1\<lparr>running := True\<rparr>)
         else s1\<lparr>queue := queue s1 @ [k]\<rparr>)"

text \<open>
  What can happen, one event at a time: time passes; somebody calls \<open>schedule\<close>; the
  timer of a sleeping \<open>run\<close> fires, which it does not do before its time; the unit of work
  of an executing call settles with some outcome. Between two events nothing else runs:
  the code of an event runs to its next suspension without interruption. An event that
  cannot happen in a state has no successor state.
\<close>

datatype ('e, 'a) event =
    Tick nat
  | Schedule nat
  | Timeout nat
  | Settle nat "('e, 'a) outcome" nat

fun step :: "('e, 'a) event \<Rightarrow> ('e, 'a) throttler \<Rightarrow> ('e, 'a) throttler option" where
  "step (Tick d) s = Some (s\<lparr>clock := clock s + int d\<rparr>)"
| "step (Schedule dt) s = Some (schedule dt s)"
| "step (Timeout k) s =
     (if k < length (calls s) then
        (case calls s ! k of
           Sleeping d \<Rightarrow> if d \<le> clock s then Some (invoke k s) else None
         | _ \<Rightarrow> None)
      else None)"
| "step (Settle k out dt) s =
     (if k < length (calls s) \<and> calls s ! k = Executing then Some (settle k out dt s)
      else None)"

fun exec :: "('e, 'a) event list \<Rightarrow> ('e, 'a) throttler \<Rightarrow> ('e, 'a) throttler option" where
  "exec [] s = Some s"
| "exec (ev # evs) s = (case step ev s of None \<Rightarrow> None | Some s' \<Rightarrow> exec evs s')"

text \<open>
  The events that let the call in progress finish: the timer of a sleeping \<open>run\<close> fires
  when it is due, and the unit of work settles with the outcome that \<open>outs\<close> gives for
  its call. \<open>drain\<close> lets \<open>m\<close> calls finish in this way, one after the other.
\<close>

definition finish_events ::
  "(nat \<Rightarrow> ('e, 'a) outcome) \<Rightarrow> ('e, 'a) throttler \<Rightarrow> ('e, 'a) event list" where
  "finish_events outs s =
     (let n = length (dispatched s)
      in case (if n < length (calls s) then calls s ! n else Queued) of
           Sleeping d \<Rightarrow> [Tick (nat (d - clock s)), Timeout n, Settle n (outs n) 0]
         | _ \<Rightarrow> if 0 < n \<and> n \<le> length (calls s) \<and> calls s ! (n - 1) = Executing
                then [Settle (n - 1) (outs (n - 1)) 0]
                else [])"

fun drain ::
  "(nat \<Rightarrow> ('e, 'a) outcome) \<Rightarrow> nat \<Rightarrow> ('e, 'a) throttler \<Rightarrow> ('e, 'a) throttler option" where
  "drain outs 0 s = Some s"
| "drain outs (Suc m) s =
     (case exec (finish_events outs s) s of
        None \<Rightarrow> None
      | Some s' \<Rightarrow> drain outs m s')"

subsection \<open>The shape of the reachable states\<close>

text \<open>Consecutive entries of a list of times are at least \<open>i\<close> apart.\<close>

definition spaced :: "int \<Rightarrow> int list \<Rightarrow> bool" where
  "spaced i ts = (\<forall>n. Suc n < length ts \<longrightarrow> i \<le> ts ! Suc n - ts ! n)"

definition settled_below :: "nat \<Rightarrow> ('e, 'a) call list \<Rightarrow> bool" where
  "settled_below n cs = (\<forall>k<n. \<exists>out. cs ! k = Settled out)"

definition queued_from :: "nat \<Rightarrow> ('e, 'a) call list \<Rightarrow> bool" where
  "queued_from m cs = (\<forall>k. m \<le> k \<and> k < length cs \<longrightarrow> cs ! k = Queued)"

text \<open>Nothing is going on: every call made so far has been started and has settled.\<close>

definition idle :: "('e, 'a) throttler \<Rightarrow> bool" where
  "idle s =
     (\<not> running s \<and> queue s = [] \<and> length (dispatched s) = length (calls s)
      \<and> settled_below (length (calls s)) (calls s))"

text \<open>The unit of work started last is executing; the calls before it have settled, the
  calls after it wait in the queue, in their order.\<close>

definition busy_executing :: "('e, 'a) throttler \<Rightarrow> bool" where
  "busy_executing s =
     (running s \<and>
      (\<exists>n. length (dispatched s) = Suc n \<and> n < length (calls s)
           \<and> settled_below n (calls s) \<and> calls s ! n = Executing
           \<and> queued_from (Suc n) (calls s) \<and> queue s = [Suc n..<length (calls s)]))"

text \<open>Every unit of work started so far has settled, and the next call sleeps until
  the interval since the last start is over; the calls after it wait in the queue.\<close>

definition busy_sleeping :: "('e, 'a) throttler \<Rightarrow> bool" where
  "busy_sleeping s =
     (running s \<and>
      (\<exists>n d. length (dispatched s) = n \<and> n < length (calls s)
           \<and> settled_below n (calls s) \<and> calls s ! n = Sleeping d
           \<and> lastTime s + interval s \<le> d
           \<and> queued_from (Suc n) (calls s) \<and> queue s = [Suc n..<length (calls s)]))"

text \<open>The log: units of work are started in the order of their calls, the starts are
  spaced, and \<open>lastTime\<close> is the time of the last start.\<close>

definition log_ok :: "('e, 'a) throttler \<Rightarrow> bool" where
  "log_ok s =
     (map fst (dispatched s) = [0..<length (dispatched s)]
      \<and> spaced (interval s) (map snd (dispatched s))
      \<and> (dispatched s \<noteq> [] \<longrightarrow> lastTime s = snd (last (dispatched s))))"

definition consistent :: "('e, 'a) throttler \<Rightarrow> bool" where
  "consistent s = ((idle s \<or> busy_executing s \<or> busy_sleeping s) \<and> log_ok s)"

text \<open>The state in which \<open>run k\<close> is called: \<open>running\<close> has just been set, call \<open>k\<close> is
  the first that has not been started.\<close>

definition ready :: "nat \<Rightarrow> ('e, 'a) throttler \<Rightarrow> bool" where
  "ready k s =
     (running s \<and> length (dispatched s) = k \<and> k < length (calls s)
      \<and> settled_below k (calls s) \<and> calls s ! k = Queued
      \<and> queued_from (Suc k) (calls s) \<and> queue s = [Suc k..<length (calls s)]
      \<and> log_ok s)"

subsection \<open>Example runs\<close>

text \<open>
  Three calls of \<open>schedule\<close> in a row on a Throttler with interval 100 created at time
  1000. The first unit of work starts at once and fails 250 ms later; the second
  starts then, runs for 30 ms and returns; the third has to wait until 100 ms after the
  start of the second.
\<close>

definition three_calls :: "(string, nat) event list" where
  "three_calls =
     [Schedule 0, Schedule 0, Schedule 0, Tick 250, Settle 0 (Rejected ''boom'') 0,
      Tick 30, Settle 1 (Resolved 7) 0, Tick 80, Timeout 2]"

text \<open>The same run up to the failure of the first unit of work.\<close>

definition two_waiting :: "(string, nat) event list" where
  "two_waiting = [Schedule 0, Schedule 0, Schedule 0, Tick 250]"

text \<open>The states these two runs lead to.\<close>

definition after_three_calls :: "(string, nat) throttler" where
  "after_three_calls =
     \<lparr>interval = 100, lastTime = 1360, running = True, queue = [], clock = 1360,
      calls = [Settled (Rejected ''boom''), Settled (Resolved 7), Executing],
      dispatched = [(0, 1000), (1, 1250), (2, 1360)]\<rparr>"

definition after_two_waiting :: "(string, nat) throttler" where
  "after_two_waiting =
     \<lparr>interval = 100, lastTime = 1000, running = True, queue = [1, 2], clock = 1250,
      calls = [Executing, Queued, Queued], dispatched = [(0, 1000)]\<rparr>"

text \<open>The state after the first unit of work has failed in \<open>after_two_waiting\<close>, outcomes
  for the calls behind it (the second fails too), and the state when they have
  finished.\<close>

definition after_failure :: "(string, nat) throttler" where
  "after_failure =
     \<lparr>interval = 100, lastTime = 1250, running = True, queue = [2], clock = 1250,
      calls = [Settled (Rejected ''boom''), Executing, Queued],
      dispatched = [(0, 1000), (1, 1250)]\<rparr>"

definition later_outcomes :: "nat \<Rightarrow> (string, nat) outcome" where
  "later_outcomes k = (if k = 1 then Rejected ''late'' else Resolved k)"

definition after_drain :: "(string, nat) throttler" where
  "after_drain =
     \<lparr>interval = 100, lastTime = 1350, running = False, queue = [], clock = 1350,
      calls = [Settled (Rejected ''boom''), Settled (Rejected ''late''), Settled (Resolved 2)],
      dispatched = [(0, 1000), (1, 1250), (2, 1350)]\<rparr>"

section \<open>The bound of the JSON parser is never reached\<close>

lemma pv_members:
  "s \<noteq> [] \<and> hd s = CHR ''{'' \<and> \<not> (skip_ws (tl s) \<noteq> [] \<and> hd (skip_ws (tl s)) = CHR ''}'')
   \<Longrightarrow> parse_value (Suc k) s = parse_members k (skip_ws (tl s)) []"
  by auto

lemma pv_elements:
  "s \<noteq> [] \<and> hd s = CHR ''['' \<and> \<not> (skip_ws (tl s) \<noteq> [] \<and> hd (skip_ws (tl s)) = CHR '']'')
   \<Longrightarrow> parse_value (Suc k) s = parse_elements k (skip_ws (tl s)) []"
  by auto

lemma pv_flat:
  "\<not> (s \<noteq> [] \<and> hd s = CHR ''{'' \<and> \<not> (skip_ws (tl s) \<noteq> [] \<and> hd (skip_ws (tl s)) = CHR ''}''))
   \<Longrightarrow> \<not> (s \<noteq> [] \<and> hd s = CHR ''['' \<and> \<not> (skip_ws (tl s) \<noteq> [] \<and> hd (skip_ws (tl s)) = CHR '']''))
   \<Longrightarrow> parse_value (Suc k) s = parse_value (Suc 0) s"
  by (simp only: parse_value.simps) presburger

lemma pe_step:
  "parse_value k s = Some (v, r) \<Longrightarrow> skip_ws r = d # r' \<Longrightarrow>
   parse_elements (Suc k) s acc =
     (if d = CHR '','' then parse_elements k (skip_ws r') (acc @ [v])
      else if d = CHR '']'' then Some (JArray (acc @ [v]), r') else None)"
  by simp

lemma pe_SomeD:
  "parse_elements (Suc k) s acc = Some x \<Longrightarrow>
   \<exists>v r d r'. parse_value k s = Some (v, r) \<and> skip_ws r = d # r'"
  by (simp split: option.splits prod.splits list.splits)

lemma pm_step:
  "member_key s = Some (key, r) \<Longrightarrow> parse_value k r = Some (v, r') \<Longrightarrow>
   skip_ws r' = d # r'' \<Longrightarrow>
   parse_members (Suc k) s acc =
     (if d = CHR '','' then parse_members k (skip_ws r'') (acc @ [(key, v)])
      else if d = CHR ''}'' then Some (JObject (acc @ [(key, v)]), r'') else None)"
  by simp

lemma pm_SomeD:
  "parse_members (Suc k) s acc = Some x \<Longrightarrow>
   \<exists>key r v r' d r''. member_key s = Some (key, r) \<and> parse_value k r = Some (v, r')
      \<and> skip_ws r' = d # r''"
  by (simp split: option.splits prod.splits list.splits)


declare parse_value.simps [simp del] parse_elements.simps [simp del] parse_members.simps [simp del]

lemma v_step:
  assumes IHm: "\<And>s acc x. parse_members n s acc = Some x \<Longrightarrow> parse_members (Suc n) s acc = Some x"
    and IHe: "\<And>s acc x. parse_elements n s acc = Some x \<Longrightarrow> parse_elements (Suc n) s acc = Some x"
    and a: "parse_value (Suc n) s = Some x"
  shows "parse_value (Suc (Suc n)) s = Some x"
proof -
  consider
    (m) "s \<noteq> [] \<and> hd s = CHR ''{'' \<and> \<not> (skip_ws (tl s) \<noteq> [] \<and> hd (skip_ws (tl s)) = CHR ''}'')"
    | (e) "s \<noteq> [] \<and> hd s = CHR ''['' \<and> \<not> (skip_ws (tl s) \<noteq> [] \<and> hd (skip_ws (tl s)) = CHR '']'')"
    | (f) "\<not> (s \<noteq> [] \<and> hd s = CHR ''{'' \<and> \<not> (skip_ws (tl s) \<noteq> [] \<and> hd (skip_ws (tl s)) = CHR ''}''))"
        "\<not> (s \<noteq> [] \<and> hd s = CHR ''['' \<and> \<not> (skip_ws (tl s) \<noteq> [] \<and> hd (skip_ws (tl s)) = CHR '']''))"
    by blast
  then show ?thesis
  proof cases
    case m
    have "parse_members n (skip_ws (tl s)) [] = Some x"
      using a by (simp only: pv_members [OF m])
    then have "parse_members (Suc n) (skip_ws (tl s)) [] = Some x" by (rule IHm)
    then show ?thesis by (simp only: pv_members [OF m])
  next
    case e
    have "parse_elements n (skip_ws (tl s)) [] = Some x"
      using a by (simp only: pv_elements [OF e])
    then have "parse_elements (Suc n) (skip_ws (tl s)) [] = Some x" by (rule IHe)
    then show ?thesis by (simp only: pv_elements [OF e])
  next
    case f
    have "parse_value (Suc (Suc n)) s = parse_value (Suc 0) s" by (rule pv_flat [OF f])
    moreover have "parse_value (Suc n) s = parse_value (Suc 0) s" by (rule pv_flat [OF f])
    ultimately show ?thesis using a by metis
  qed
qed


lemma e_step:
  assumes IHv: "\<And>s x. parse_value n s = Some x \<Longrightarrow> parse_value (Suc n) s = Some x"
    and IHe: "\<And>s acc x. parse_elements n s acc = Some x \<Longrightarrow> parse_elements (Suc n) s acc = Some x"
    and a: "parse_elements (Suc n) s acc = Some x"
  shows "parse_elements (Suc (Suc n)) s acc = Some x"
proof -
  obtain v r d r' where pv: "parse_value n s = Some (v, r)" and sk: "skip_ws r = d # r'"
    using pe_SomeD [OF a] by blast
  have pv': "parse_value (Suc n) s = Some (v, r)" by (rule IHv [OF pv])
  note lo = pe_step [OF pv sk, of acc] and hi = pe_step [OF pv' sk, of acc]
  show ?thesis
  proof (cases "d = CHR '',''")
    case True
    then have "parse_elements n (skip_ws r') (acc @ [v]) = Some x" using a lo by simp
    then have "parse_elements (Suc n) (skip_ws r') (acc @ [v]) = Some x" by (rule IHe)
    then show ?thesis using True hi by simp
  next
    case False
    then show ?thesis using a lo hi by simp
  qed
qed

lemma m_step:
  assumes IHv: "\<And>s x. parse_value n s = Some x \<Longrightarrow> parse_value (Suc n) s = Some x"
    and IHm: "\<And>s acc x. parse_members n s acc = Some x \<Longrightarrow> parse_members (Suc n) s acc = Some x"
    and a: "parse_members (Suc n) s acc = Some x"
  shows "parse_members (Suc (Suc n)) s acc = Some x"
proof -
  obtain key r v r' d r'' where mk: "member_key s = Some (key, r)"
    and pv: "parse_value n r = Some (v, r')" and sk: "skip_ws r' = d # r''"
    using pm_SomeD [OF a] by blast
  have pv': "parse_value (Suc n) r = Some (v, r')" by (rule IHv [OF pv])
  note lo = pm_step [OF mk pv sk, of acc] and hi = pm_step [OF mk pv' sk, of acc]
  show ?thesis
  proof (cases "d = CHR '',''")
    case True
    then have "parse_members n (skip_ws r'') (acc @ [(key, v)]) = Some x" using a lo by simp
    then have "parse_members (Suc n) (skip_ws r'') (acc @ [(key, v)]) = Some x" by (rule IHm)
    then show ?thesis using True hi by simp
  next
    case False
    then show ?thesis using a lo hi by simp
  qed
qed

lemma fuel_Suc:
  "(\<forall>s x. parse_value n s = Some x \<longrightarrow> parse_value (Suc n) s = Some x)
   \<and> (\<forall>s acc x. parse_elements n s acc = Some x \<longrightarrow> parse_elements (Suc n) s acc = Some x)
   \<and> (\<forall>s acc x. parse_members n s acc = Some x \<longrightarrow> parse_members (Suc n) s acc = Some x)"
proof (induction n)
  case 0
  show ?case by (simp add: parse_value.simps parse_elements.simps parse_members.simps)
next
  case (Suc n)
  have IHv: "parse_value n s = Some x \<Longrightarrow> parse_value (Suc n) s = Some x" for s x
    using Suc.IH by blast
  have IHe: "parse_elements n s acc = Some x \<Longrightarrow> parse_elements (Suc n) s acc = Some x"
    for s acc x using Suc.IH by blast
  have IHm: "parse_members n s acc = Some x \<Longrightarrow> parse_members (Suc n) s acc = Some x"
    for s acc x using Suc.IH by blast
  show ?case
    using v_step [OF IHm IHe] e_step [OF IHv IHe] m_step [OF IHv IHm] by blast
qed

lemma fuel_mono:
  "n \<le> m \<Longrightarrow>
   (parse_value n s = Some x \<longrightarrow> parse_value m s = Some x)
   \<and> (parse_elements n s es = Some x \<longrightarrow> parse_elements m s es = Some x)
   \<and> (parse_members n s ms = Some x \<longrightarrow> parse_members m s ms = Some x)"
proof (induction m)
  case 0
  then show ?case by simp
next
  case (Suc m)
  show ?case
  proof (cases "n = Suc m")
    case True
    then show ?thesis by simp
  next
    case False
    then have "n \<le> m" using Suc.prems by simp
    then show ?thesis using Suc.IH fuel_Suc [of m] by blast
  qed
qed


lemma skip_ws_length: "length (skip_ws s) \<le> length s"
  by (simp add: skip_ws_def length_dropWhile_le)

lemma parse_string_length:
  "parse_string cs acc = Some (str, r) \<Longrightarrow> length r < length cs"
proof (induction cs acc rule: parse_string.induct)
  case (1 acc)
  then show ?case by simp
next
  case (2 c cs acc)
  show ?case
  proof (cases "c = CHR 0x22")
    case True
    then show ?thesis using "2.prems" by simp
  next
    case nq: False
    show ?thesis
    proof (cases "c = CHR 0x5C")
      case False
      then show ?thesis using nq "2.prems" "2.IH"(3) by (auto split: if_splits)
    next
      case True
      then obtain e r0 where cs: "cs = e # r0" using nq "2.prems" by (cases cs) auto
      show ?thesis
      proof (cases "e = CHR ''u''")
        case False
        then obtain ch where "unescape e = Some ch" and "parse_string r0 (acc @ [ch]) = Some (str, r)"
          using nq True cs "2.prems" by (auto split: option.splits)
        then have "length r < length r0" using "2.IH"(2) nq True cs False by blast
        then show ?thesis using cs by simp
      next
        case u: True
        then obtain h1 h2 h3 h4 r' n where r0: "r0 = h1 # h2 # h3 # h4 # r'"
          and "hex4 h1 h2 h3 h4 = Some n" and "n < 256"
          and "parse_string r' (acc @ [char_of n]) = Some (str, r)"
          using nq True cs "2.prems" by (auto split: list.splits option.splits if_splits)
        then have "length r < length r'" using "2.IH"(1) nq True cs u by blast
        then show ?thesis using cs r0 by simp
      qed
    qed
  qed
qed

lemma parse_fraction_length: "parse_fraction r = Some (fp, r') \<Longrightarrow> length r' \<le> length r"
  by (auto simp: parse_fraction_def split: if_splits
      intro: order_trans [OF length_dropWhile_le])

lemma parse_exponent_length: "parse_exponent r = Some (e, r') \<Longrightarrow> length r' \<le> length r"
proof -
  assume a: "parse_exponent r = Some (e, r')"
  show ?thesis
  proof (cases "r \<noteq> [] \<and> (hd r = CHR ''e'' \<or> hd r = CHR ''E'')")
    case False
    then show ?thesis using a by (auto simp: parse_exponent_def)
  next
    case True
    define r2 where "r2 = (if tl r \<noteq> [] \<and> (hd (tl r) = CHR ''-'' \<or> hd (tl r) = CHR ''+'')
      then tl (tl r) else tl r)"
    have "r' = dropWhile is_digit r2"
      using a True by (auto simp: parse_exponent_def Let_def r2_def split: if_splits)
    moreover have "length r2 \<le> length r" by (simp add: r2_def)
    ultimately show ?thesis using length_dropWhile_le [of is_digit r2] by simp
  qed
qed

lemma parse_number_length: "parse_number s = Some (x, r) \<Longrightarrow> length r < length s"
proof -
  assume a: "parse_number s = Some (x, r)"
  define u where "u = (if s \<noteq> [] \<and> hd s = CHR ''-'' then tl s else s)"
  define ip where "ip = (if u \<noteq> [] \<and> hd u = CHR ''0'' then ''0'' else takeWhile is_digit u)"
  have ne: "ip \<noteq> []"
    using a by (auto simp: parse_number_def Let_def u_def ip_def split: if_splits)
  obtain fp r2 e where f: "parse_fraction (drop (length ip) u) = Some (fp, r2)"
    and ex: "parse_exponent r2 = Some (e, r)"
    using a ne
    by (auto simp: parse_number_def Let_def u_def ip_def split: if_splits option.splits)
  have "length ip \<le> length u"
    by (auto simp: ip_def length_takeWhile_le intro: Suc_leI)
  then have "length (drop (length ip) u) < length u" using ne by (cases ip) auto
  moreover have "length u \<le> length s" by (simp add: u_def)
  ultimately show ?thesis
    using parse_fraction_length [OF f] parse_exponent_length [OF ex] by linarith
qed

lemma parse_scalar_length: "parse_scalar s = Some (v, r) \<Longrightarrow> length r < length s"
proof -
  assume a: "parse_scalar s = Some (v, r)"
  have p: "prefix p s \<Longrightarrow> k \<le> length p \<Longrightarrow> 0 < k \<Longrightarrow> length (drop k s) < length s" for p k
    by (auto simp: prefix_def)
  show ?thesis
  proof (cases "s \<noteq> [] \<and> hd s = CHR 0x22")
    case True
    then obtain str where "parse_string (tl s) [] = Some (str, r)"
      using a by (auto simp: parse_scalar_def split: option.splits)
    then have "length r < length (tl s)" by (rule parse_string_length)
    then show ?thesis by simp
  next
    case False
    then show ?thesis
      using a p [of "''true''" 4] p [of "''false''" 5] p [of "''null''" 4]
      by (auto simp: parse_scalar_def split: if_splits option.splits dest: parse_number_length)
  qed
qed

lemma member_key_length: "member_key s = Some (k, r) \<Longrightarrow> length r < length s"
proof -
  assume a: "member_key s = Some (k, r)"
  then obtain r1 where ps: "parse_string (tl s) [] = Some (k, r1)" and ne: "s \<noteq> []"
    and r: "r = skip_ws (tl (skip_ws r1))"
    by (auto simp: member_key_def split: if_splits option.splits)
  have "length r1 < length (tl s)" using ps by (rule parse_string_length)
  moreover have "length r \<le> length r1"
    unfolding r using skip_ws_length [of "tl (skip_ws r1)"] skip_ws_length [of r1] by simp
  ultimately show ?thesis by simp
qed


lemma pv_flat_length:
  assumes "\<not> (s \<noteq> [] \<and> hd s = CHR ''{'' \<and> \<not> (skip_ws (tl s) \<noteq> [] \<and> hd (skip_ws (tl s)) = CHR ''}''))"
    and "\<not> (s \<noteq> [] \<and> hd s = CHR ''['' \<and> \<not> (skip_ws (tl s) \<noteq> [] \<and> hd (skip_ws (tl s)) = CHR '']''))"
    and "parse_value (Suc 0) s = Some (v, r)"
  shows "length r < length s"
proof -
  have t: "skip_ws (tl s) \<noteq> [] \<Longrightarrow> s \<noteq> [] \<Longrightarrow> length (tl (skip_ws (tl s))) < length s"
    using skip_ws_length [of "tl s"] by (cases "skip_ws (tl s)") auto
  show ?thesis
    using assms t
    by (auto simp: parse_value.simps split: if_splits dest: parse_scalar_length)
qed

text \<open>What a parse has consumed bounds the fuel it needs.\<close>

lemma fuel_bound:
  "(\<forall>s v r. parse_value n s = Some (v, r) \<longrightarrow>
      length r < length s \<and> parse_value (2 * (length s - length r)) s = Some (v, r))
   \<and> (\<forall>s acc v r. parse_elements n s acc = Some (v, r) \<longrightarrow>
      length r < length s \<and> parse_elements (2 * (length s - length r)) s acc = Some (v, r))
   \<and> (\<forall>s acc v r. parse_members n s acc = Some (v, r) \<longrightarrow>
      length r < length s \<and> parse_members (2 * (length s - length r)) s acc = Some (v, r))"
proof (induction n)
  case 0
  show ?case by (simp add: parse_value.simps parse_elements.simps parse_members.simps)
next
  case (Suc n)
  have IHv: "parse_value n s = Some (v, r) \<Longrightarrow>
      length r < length s \<and> parse_value (2 * (length s - length r)) s = Some (v, r)" for s v r
    using Suc.IH by blast
  have IHe: "parse_elements n s acc = Some (v, r) \<Longrightarrow>
      length r < length s \<and> parse_elements (2 * (length s - length r)) s acc = Some (v, r)"
    for s acc v r using Suc.IH by blast
  have IHm: "parse_members n s acc = Some (v, r) \<Longrightarrow>
      length r < length s \<and> parse_members (2 * (length s - length r)) s acc = Some (v, r)"
    for s acc v r using Suc.IH by blast
  have v: "length r < length s \<and> parse_value (2 * (length s - length r)) s = Some (v, r)"
    if a: "parse_value (Suc n) s = Some (v, r)" for s v r
  proof -
    consider
      (m) "s \<noteq> [] \<and> hd s = CHR ''{'' \<and> \<not> (skip_ws (tl s) \<noteq> [] \<and> hd (skip_ws (tl s)) = CHR ''}'')"
      | (e) "s \<noteq> [] \<and> hd s = CHR ''['' \<and> \<not> (skip_ws (tl s) \<noteq> [] \<and> hd (skip_ws (tl s)) = CHR '']'')"
      | (f) "\<not> (s \<noteq> [] \<and> hd s = CHR ''{'' \<and> \<not> (skip_ws (tl s) \<noteq> [] \<and> hd (skip_ws (tl s)) = CHR ''}''))"
          "\<not> (s \<noteq> [] \<and> hd s = CHR ''['' \<and> \<not> (skip_ws (tl s) \<noteq> [] \<and> hd (skip_ws (tl s)) = CHR '']''))"
      by blast
    then show ?thesis
    proof cases
      case m
      let ?t = "skip_ws (tl s)"
      have "parse_members n ?t [] = Some (v, r)" using a by (simp only: pv_members [OF m])
      then have l: "length r < length ?t"
        and p: "parse_members (2 * (length ?t - length r)) ?t [] = Some (v, r)"
        using IHm by blast+
      have lt: "length ?t < length s" using m skip_ws_length [of "tl s"] by (cases s) auto
      obtain k where k: "2 * (length s - length r) = Suc k" using l lt by (cases "2 * (length s - length r)") auto
      have "2 * (length ?t - length r) \<le> k" using k l lt by linarith
      then have "parse_members k ?t [] = Some (v, r)" using p fuel_mono by blast
      then have "parse_value (Suc k) s = Some (v, r)" by (simp only: pv_members [OF m])
      then show ?thesis using k l lt by simp
    next
      case e
      let ?t = "skip_ws (tl s)"
      have "parse_elements n ?t [] = Some (v, r)" using a by (simp only: pv_elements [OF e])
      then have l: "length r < length ?t"
        and p: "parse_elements (2 * (length ?t - length r)) ?t [] = Some (v, r)"
        using IHe by blast+
      have lt: "length ?t < length s" using e skip_ws_length [of "tl s"] by (cases s) auto
      obtain k where k: "2 * (length s - length r) = Suc k" using l lt by (cases "2 * (length s - length r)") auto
      have "2 * (length ?t - length r) \<le> k" using k l lt by linarith
      then have "parse_elements k ?t [] = Some (v, r)" using p fuel_mono by blast
      then have "parse_value (Suc k) s = Some (v, r)" by (simp only: pv_elements [OF e])
      then show ?thesis using k l lt by simp
    next
      case f
      have z: "parse_value (Suc 0) s = Some (v, r)" using a pv_flat [OF f, of n] by simp
      then have l: "length r < length s" by (rule pv_flat_length [OF f])
      then obtain k where k: "2 * (length s - length r) = Suc k" by (cases "2 * (length s - length r)") auto
      have "parse_value (Suc k) s = Some (v, r)" using z pv_flat [OF f, of k] by simp
      then show ?thesis using k l by simp
    qed
  qed
  have e: "length r < length s \<and> parse_elements (2 * (length s - length r)) s acc = Some (x, r)"
    if a: "parse_elements (Suc n) s acc = Some (x, r)" for s acc x r
  proof -
    obtain v r1 d r' where pv: "parse_value n s = Some (v, r1)" and sk: "skip_ws r1 = d # r'"
      using pe_SomeD [OF a] by blast
    have l1: "length r1 < length s"
      and p1: "parse_value (2 * (length s - length r1)) s = Some (v, r1)"
      using IHv [OF pv] by blast+
    have l2: "length r' < length r1" using skip_ws_length [of r1] sk by simp
    note lo = pe_step [OF pv sk, of acc]
    show ?thesis
    proof (cases "d = CHR '',''")
      case True
      let ?t = "skip_ws r'"
      have "parse_elements n ?t (acc @ [v]) = Some (x, r)" using a lo True by simp
      then have l3: "length r < length ?t"
        and p3: "parse_elements (2 * (length ?t - length r)) ?t (acc @ [v]) = Some (x, r)"
        using IHe by blast+
      have l4: "length ?t \<le> length r'" by (rule skip_ws_length)
      obtain k where k: "2 * (length s - length r) = Suc k"
        using l1 l2 l3 l4 by (cases "2 * (length s - length r)") auto
      have "2 * (length s - length r1) \<le> k" using k l1 l2 l3 l4 by linarith
      then have pk: "parse_value k s = Some (v, r1)" using p1 fuel_mono by blast
      have "2 * (length ?t - length r) \<le> k" using k l1 l2 l3 l4 by linarith
      then have "parse_elements k ?t (acc @ [v]) = Some (x, r)" using p3 fuel_mono by blast
      then have "parse_elements (Suc k) s acc = Some (x, r)"
        using pe_step [OF pk sk, of acc] True by simp
      then show ?thesis using k l1 l2 l3 l4 by simp
    next
      case False
      then have r: "r = r'" using a lo by (auto split: if_splits)
      obtain k where k: "2 * (length s - length r) = Suc k"
        using l1 l2 r by (cases "2 * (length s - length r)") auto
      have "2 * (length s - length r1) \<le> k" using k l1 l2 unfolding r by linarith
      then have pk: "parse_value k s = Some (v, r1)" using p1 fuel_mono by blast
      have "parse_elements (Suc k) s acc = parse_elements (Suc n) s acc"
        using pe_step [OF pk sk, of acc] lo False by simp
      then show ?thesis using a k l1 l2 r by simp
    qed
  qed
  have m: "length r < length s \<and> parse_members (2 * (length s - length r)) s acc = Some (x, r)"
    if a: "parse_members (Suc n) s acc = Some (x, r)" for s acc x r
  proof -
    obtain key r0 v r1 d r' where mk: "member_key s = Some (key, r0)"
      and pv: "parse_value n r0 = Some (v, r1)" and sk: "skip_ws r1 = d # r'"
      using pm_SomeD [OF a] by blast
    have l0: "length r0 < length s" using mk by (rule member_key_length)
    have l1: "length r1 < length r0"
      and p1: "parse_value (2 * (length r0 - length r1)) r0 = Some (v, r1)"
      using IHv [OF pv] by blast+
    have l2: "length r' < length r1" using skip_ws_length [of r1] sk by simp
    note lo = pm_step [OF mk pv sk, of acc]
    show ?thesis
    proof (cases "d = CHR '',''")
      case True
      let ?t = "skip_ws r'"
      have "parse_members n ?t (acc @ [(key, v)]) = Some (x, r)" using a lo True by simp
      then have l3: "length r < length ?t"
        and p3: "parse_members (2 * (length ?t - length r)) ?t (acc @ [(key, v)]) = Some (x, r)"
        using IHm by blast+
      have l4: "length ?t \<le> length r'" by (rule skip_ws_length)
      obtain k where k: "2 * (length s - length r) = Suc k"
        using l0 l1 l2 l3 l4 by (cases "2 * (length s - length r)") auto
      have "2 * (length r0 - length r1) \<le> k" using k l0 l1 l2 l3 l4 by linarith
      then have pk: "parse_value k r0 = Some (v, r1)" using p1 fuel_mono by blast
      have "2 * (length ?t - length r) \<le> k" using k l0 l1 l2 l3 l4 by linarith
      then have "parse_members k ?t (acc @ [(key, v)]) = Some (x, r)" using p3 fuel_mono by blast
      then have "parse_members (Suc k) s acc = Some (x, r)"
        using pm_step [OF mk pk sk, of acc] True by simp
      then show ?thesis using k l0 l1 l2 l3 l4 by simp
    next
      case False
      then have r: "r = r'" using a lo by (auto split: if_splits)
      obtain k where k: "2 * (length s - length r) = Suc k"
        using l0 l1 l2 r by (cases "2 * (length s - length r)") auto
      have "2 * (length r0 - length r1) \<le> k" using k l0 l1 l2 unfolding r by linarith
      then have pk: "parse_value k r0 = Some (v, r1)" using p1 fuel_mono by blast
      have "parse_members (Suc k) s acc = parse_members (Suc n) s acc"
        using pm_step [OF mk pk sk, of acc] lo False by simp
      then show ?thesis using a k l0 l1 l2 r by simp
    qed
  qed
  show ?case using v e m by blast
qed

text \<open>The bound of \<open>JSON_parse\<close> never cuts a parse short: it yields whatever any bound
  yields.\<close>

lemma JSON_parse_fuel:
  assumes "parse_value n (skip_ws s) = Some (v, r)"
  shows "parse_value (2 * length s + 2) (skip_ws s) = Some (v, r)"
proof -
  have "parse_value (2 * (length (skip_ws s) - length r)) (skip_ws s) = Some (v, r)"
    using fuel_bound [of n] assms by blast
  moreover have "2 * (length (skip_ws s) - length r) \<le> 2 * length s + 2"
    using skip_ws_length [of s] by linarith
  ultimately show ?thesis using fuel_mono by blast
qed

lemma JSON_parse_complete:
  "parse_value n (skip_ws s) = Some (v, r) \<Longrightarrow> skip_ws r = [] \<Longrightarrow> JSON_parse s = Some v"
  using JSON_parse_fuel [of n s v r] by (simp add: JSON_parse_def)

section \<open>Properties of the retry policy\<close>

declare withRetries_loop.simps [simp del]

lemma loop_returns:
  "int attempt \<le> maxRetries \<Longrightarrow> work s = (Inr v, s') \<Longrightarrow>
   withRetries_loop work maxRetries attempt lastErr s tr = (Inr v, s', tr @ [Invoke])"
  by (subst withRetries_loop.simps) simp

lemma loop_rethrows:
  "int attempt \<le> maxRetries \<Longrightarrow> work s = (Inl e, s') \<Longrightarrow>
   \<not> (isRateLimited e \<and> int attempt < maxRetries) \<Longrightarrow>
   withRetries_loop work maxRetries attempt lastErr s tr = (Inl (Some e), s', tr @ [Invoke])"
  by (subst withRetries_loop.simps) auto

lemma loop_retries:
  "work s = (Inl e, s') \<Longrightarrow> isRateLimited e \<Longrightarrow> int attempt < maxRetries \<Longrightarrow>
   withRetries_loop work maxRetries attempt lastErr s tr =
   withRetries_loop work maxRetries (Suc attempt) (Some e) s'
     (tr @ [Invoke, Sleep (retry_delay e attempt)])"
  by (subst withRetries_loop.simps) simp

lemma isRateLimited_iff:
  "isRateLimited e \<longleftrightarrow>
     (\<exists>m. message e = Some m \<and>
        (includes_str m ''RESOURCE_EXHAUSTED'' \<or> includes_str m ''Too Many Requests''
         \<or> includes_str m ''quota''))"
  by (auto simp: isRateLimited_def includes_str_def split: option.splits)

lemma no_hint_RESOURCE_EXHAUSTED:
  "parseRetryDelayMs \<lparr>instanceof_Error = b, message = Some ''RESOURCE_EXHAUSTED'', rest = x\<rparr> = None"
proof -
  have "JSON_parse ''RESOURCE_EXHAUSTED'' = None" by code_simp
  then show ?thesis by (simp add: parseRetryDelayMs_def try_body_def)
qed

lemma Unknown_error_plain:
  "\<not> includes_str ''Unknown error'' ''RESOURCE_EXHAUSTED''"
  "\<not> includes_str ''Unknown error'' ''Too Many Requests''"
  by code_simp+

lemma API_key_not_valid_plain:
  "\<not> includes_str ''API key not valid'' ''RESOURCE_EXHAUSTED''"
  "\<not> includes_str ''API key not valid'' ''Too Many Requests''"
  "\<not> includes_str ''API key not valid'' ''quota''"
  by code_simp+

lemma quota_message_facts:
  "includes_str ''You exceeded your current quota'' ''quota''"
  "\<not> includes_str ''You exceeded your current quota'' ''RESOURCE_EXHAUSTED''"
  "\<not> includes_str ''You exceeded your current quota'' ''Too Many Requests''"
  by code_simp+

lemma JSON_parse_Nil: "JSON_parse [] = None"
  by code_simp

lemma find_RetryInfo_SomeD:
  "find_RetryInfo ds = Inr (Some ri) \<Longrightarrow>
   ri \<in> set ds \<and> ri \<noteq> JNull \<and> get_prop ri ''@type'' = Some (JString RetryInfo)"
  by (induction ds) (auto split: json.splits if_splits)


lemma parseRetryDelayMs_details:
  assumes "message e = Some m" and "JSON_parse m = Some data"
    and "error_details data = Some (JArray ds)"
  shows "parseRetryDelayMs e =
     (case find_RetryInfo ds of
        Inl _ \<Rightarrow> None
      | Inr ri \<Rightarrow> (case delay_ms (opt_chain ri ''retryDelay'') of Inl _ \<Rightarrow> None | Inr r \<Rightarrow> r))"
proof -
  have "m \<noteq> []" using assms(2) JSON_parse_Nil by auto
  then show ?thesis
    using assms
    by (simp add: parseRetryDelayMs_def try_body_def or_empty_def truthy_def details_find_def
        split: sum.splits)
qed

lemma parseRetryDelayMs_entry:
  assumes "message e = Some m" and "JSON_parse m = Some data"
    and "error_details data = Some (JArray ds)"
    and "find_RetryInfo ds = Inr (Some ri)"
  shows "parseRetryDelayMs e =
     (case delay_ms (get_prop ri ''retryDelay'') of Inl _ \<Rightarrow> None | Inr r \<Rightarrow> r)"
proof -
  have "ri \<noteq> JNull" using find_RetryInfo_SomeD [OF assms(4)] by simp
  then have "opt_chain (Some ri) ''retryDelay'' = get_prop ri ''retryDelay''"
    by (cases ri) (simp_all add: opt_chain_def)
  then show ?thesis
    using parseRetryDelayMs_details [OF assms(1-3)] assms(4) by simp
qed

lemma loop_trace_prefix:
  "prefix tr (snd (snd (withRetries_loop work k a l s tr)))"
proof (induction work k a l s tr rule: withRetries_loop.induct)
  case (1 work maxRetries attempt lastErr s tr)
  show ?case
  proof (cases "work s")
    case (Pair r s')
    show ?thesis
    proof (cases r)
      case (Inr v)
      then show ?thesis using Pair by (subst withRetries_loop.simps) simp
    next
      case (Inl e)
      show ?thesis
      proof (cases "int attempt \<le> maxRetries \<and> isRateLimited e \<and> int attempt < maxRetries")
        case True
        then have "prefix (tr @ [Invoke, Sleep (retry_delay e attempt)])
          (snd (snd (withRetries_loop work maxRetries (attempt + 1) (Some e) s'
             (tr @ [Invoke, Sleep (retry_delay e attempt)]))))"
          using "1.IH" [OF _ Pair [symmetric] Inl] by simp
        moreover have "withRetries_loop work maxRetries attempt lastErr s tr =
           withRetries_loop work maxRetries (attempt + 1) (Some e) s'
             (tr @ [Invoke, Sleep (retry_delay e attempt)])"
          using True Pair Inl by (subst withRetries_loop.simps) simp
        ultimately show ?thesis by (metis append_prefixD)
      next
        case False
        then show ?thesis using Pair Inl by (subst withRetries_loop.simps) auto
      qed
    qed
  qed
qed

lemma first_wait_is_hint:
  assumes "work s0 = (Inl e, s1)" and "isRateLimited e" and "0 < maxRetries"
  shows "take 2 (snd (snd (withRetries work maxRetries s0))) = [Invoke, Sleep (retry_delay e 0)]"
proof -
  have "withRetries work maxRetries s0 =
      withRetries_loop work maxRetries (Suc 0) (Some e) s1 [Invoke, Sleep (retry_delay e 0)]"
    unfolding withRetries_def
    using loop_retries [of work s0 e s1 0 maxRetries None "[]"] assms by simp
  moreover have "prefix [Invoke, Sleep (retry_delay e 0)]
     (snd (snd (withRetries_loop work maxRetries (Suc 0) (Some e) s1
        [Invoke, Sleep (retry_delay e 0)])))"
    by (rule loop_trace_prefix)
  ultimately show ?thesis by (auto simp: prefix_def)
qed






lemma backoff_when_no_hint:
  "parseRetryDelayMs e = None \<Longrightarrow> retry_delay e n = Num (2000 * 2 ^ n)"
  by (simp add: retry_delay_def)

lemma loop_backoff:
  assumes fails: "\<And>s. \<exists>e s'. work s = (Inl e, s') \<and> isRateLimited e \<and> parseRetryDelayMs e = None"
  shows "nat k - a = d \<Longrightarrow> int a \<le> k \<Longrightarrow>
     \<exists>e s'. work (((\<lambda>s. snd (work s)) ^^ d) s) = (Inl e, s') \<and>
       withRetries_loop work k a l s tr =
         (Inl (Some e), s',
          tr @ concat (map (\<lambda>n. [Invoke, Sleep (Num (2000 * 2 ^ n))]) [a..<nat k]) @ [Invoke])"
proof (induction d arbitrary: a l s tr)
  case 0
  obtain e s' where w: "work s = (Inl e, s')" using fails by blast
  have "\<not> int a < k" using 0 by linarith
  then have "withRetries_loop work k a l s tr = (Inl (Some e), s', tr @ [Invoke])"
    using loop_rethrows [of a k work s e s' l tr] w 0 by simp
  moreover have "[a..<nat k] = []" using 0 by simp
  ultimately show ?case using w by auto
next
  case (Suc d)
  obtain e s' where w: "work s = (Inl e, s')" and r: "isRateLimited e"
    and h: "parseRetryDelayMs e = None" using fails by blast
  have lt: "int a < k" using Suc.prems by linarith
  have step: "withRetries_loop work k a l s tr =
      withRetries_loop work k (Suc a) (Some e) s' (tr @ [Invoke, Sleep (Num (2000 * 2 ^ a))])"
    using loop_retries [of work s e s' a k l tr] w r lt backoff_when_no_hint [OF h] by simp
  have "nat k - Suc a = d" and "int (Suc a) \<le> k" using Suc.prems lt by linarith+
  from Suc.IH [OF this, of s' "Some e" "tr @ [Invoke, Sleep (Num (2000 * 2 ^ a))]"]
  obtain e2 s2 where w2: "work (((\<lambda>s. snd (work s)) ^^ d) s') = (Inl e2, s2)"
    and res: "withRetries_loop work k (Suc a) (Some e) s' (tr @ [Invoke, Sleep (Num (2000 * 2 ^ a))]) =
       (Inl (Some e2), s2,
        (tr @ [Invoke, Sleep (Num (2000 * 2 ^ a))]) @
        concat (map (\<lambda>n. [Invoke, Sleep (Num (2000 * 2 ^ n))]) [Suc a..<nat k]) @ [Invoke])"
    by blast
  have "((\<lambda>s. snd (work s)) ^^ Suc d) s = ((\<lambda>s. snd (work s)) ^^ d) (snd (work s))"
    by (simp only: funpow_Suc_right o_apply)
  then have "((\<lambda>s. snd (work s)) ^^ Suc d) s = ((\<lambda>s. snd (work s)) ^^ d) s'"
    using w by simp
  moreover have "[a..<nat k] = a # [Suc a..<nat k]" using lt by (simp add: upt_conv_Cons)
  ultimately show ?case using step res w2 by auto
qed

lemma parseRetryDelayMs_malformed:
  "message e = Some m \<Longrightarrow> JSON_parse m = None \<Longrightarrow> parseRetryDelayMs e = None"
  by (simp add: parseRetryDelayMs_def try_body_def)

lemma parseRetryDelayMs_no_details:
  "message e = Some m \<Longrightarrow> JSON_parse m = Some data \<Longrightarrow> error_details data = None \<Longrightarrow>
   parseRetryDelayMs e = None"
  by (simp add: parseRetryDelayMs_def try_body_def or_empty_def details_find_def delay_ms_def
      opt_chain_def)

lemma delay_ms_not_seconds:
  "\<not> endsWith dl ''s'' \<Longrightarrow> delay_ms (Some (JString dl)) = Inr None"
  by (simp add: delay_ms_def)

lemma fallback_docs:
  "JSON_parse ''RESOURCE_EXHAUSTED'' = None"
  "JSON_parse no_details_doc \<noteq> None"
  "error_details (the (JSON_parse no_details_doc)) = None"
  "JSON_parse no_RetryInfo_doc \<noteq> None"
  "error_details (the (JSON_parse no_RetryInfo_doc)) = Some (JArray [help_entry])"
  "find_RetryInfo [help_entry] = Inr None"
  "JSON_parse no_retryDelay_doc \<noteq> None"
  "error_details (the (JSON_parse no_retryDelay_doc)) = Some (JArray [JObject [(''@type'', JString RetryInfo)]])"
  "find_RetryInfo [JObject [(''@type'', JString RetryInfo)]] = Inr (Some (JObject [(''@type'', JString RetryInfo)]))"
  "get_prop (JObject [(''@type'', JString RetryInfo)]) ''retryDelay'' = None"
  "JSON_parse minutes_doc \<noteq> None"
  "error_details (the (JSON_parse minutes_doc)) = Some (JArray [hint_entry ''2m''])"
  "find_RetryInfo [hint_entry ''2m''] = Inr (Some (hint_entry ''2m''))"
  "get_prop (hint_entry ''2m'') ''retryDelay'' = Some (JString ''2m'')"
  "\<not> endsWith ''2m'' ''s''"
  by code_simp+

lemma minus3s: "delay_ms (Some (JString ''-3s'')) = Inr (Some (Num (- 3000)))"
  by code_simp

lemma is_digit_not_ws: "is_digit c \<Longrightarrow> \<not> is_StrWhiteSpaceChar c"
  by (auto simp: is_digit_def is_StrWhiteSpaceChar_def)

lemma unsigned_literal_digits:
  assumes "ds \<noteq> []" and "\<forall>c\<in>set ds. is_digit c"
  shows "unsigned_literal ds = Num (of_nat (digits_val ds))"
proof -
  obtain c cs where ds: "ds = c # cs" using assms(1) by (cases ds) auto
  have "is_digit c" using assms(2) ds by simp
  then have "c \<noteq> CHR ''I''" by (auto simp: is_digit_def)
  then have np: "\<not> prefix ''Infinity'' ds" using ds by simp
  have tw: "takeWhile is_digit ds = ds" "dropWhile is_digit ds = []"
    using assms(2) by simp_all
  show ?thesis
    using np assms(1) by (simp add: unsigned_literal_def tw exponent_part_def scale10_def)
qed

lemma delay_ms_negative:
  assumes "ds \<noteq> []" and "\<forall>c\<in>set ds. is_digit c"
  shows "delay_ms (Some (JString (''-'' @ ds @ ''s''))) =
           Inr (Some (Num (- (of_nat (digits_val ds) * 1000))))"
proof -
  have e: "endsWith (''-'' @ ds @ ''s'') ''s''"
    unfolding endsWith_def by (rule suffixI [of _ "''-'' @ ds"]) simp
  have sl: "slice_0_m1 (''-'' @ ds @ ''s'') = CHR ''-'' # ds"
    unfolding slice_0_m1_def using butlast_snoc [of "CHR ''-'' # ds" "CHR ''s''"] by simp
  have "\<not> is_StrWhiteSpaceChar (CHR ''-'')" by (simp add: is_StrWhiteSpaceChar_def)
  then have pf: "parseFloat (CHR ''-'' # ds) = Num (- of_nat (digits_val ds))"
    by (simp add: parseFloat_def unsigned_literal_digits [OF assms] negate_def)
  have "\<lceil>- (of_nat (digits_val ds) :: rat) * 1000\<rceil> = - int (digits_val ds) * 1000"
  proof -
    have "- (of_nat (digits_val ds) :: rat) * 1000 = of_int (- int (digits_val ds) * 1000)"
      by simp
    then show ?thesis by (simp only: ceiling_of_int)
  qed
  then have "ceil_ms (Num (- of_nat (digits_val ds))) = Num (- (of_nat (digits_val ds) * 1000))"
    by (simp add: ceil_ms_def)
  then show ?thesis
    using e sl pf by (simp add: delay_ms_def truthy_def)
qed

lemma negative_doc_facts:
  "JSON_parse negative_doc \<noteq> None"
  "error_details (the (JSON_parse negative_doc)) = Some (JArray [help_entry, hint_entry ''-3s''])"
  "find_RetryInfo [help_entry, hint_entry ''-3s''] = Inr (Some (hint_entry ''-3s''))"
  "get_prop (hint_entry ''-3s'') ''retryDelay'' = Some (JString ''-3s'')"
  "includes_str negative_doc ''RESOURCE_EXHAUSTED''"
  "is_digit (CHR ''3'')"
  "digits_val ''3'' = 3"
  by code_simp+

text \<open>
  Claim C4 (retry exhaustion). A unit of work that fails on every call with a message
  containing \<open>RESOURCE_EXHAUSTED\<close> is called exactly three times by \<open>withRetries\<close> with
  \<open>maxRetries = 2\<close>, with a wait after the first and after the second call, and
  \<open>withRetries\<close> then throws the failure of the third call itself.
\<close>

theorem withRetries_exhaustion:
  assumes fails: "\<And>s. \<exists>e m. fst (work s) = Inl e \<and> message e = Some m
                     \<and> includes_str m ''RESOURCE_EXHAUSTED''"
  shows "\<exists>e1 s1 e2 s2 e3 s3.
           work s0 = (Inl e1, s1) \<and> work s1 = (Inl e2, s2) \<and> work s2 = (Inl e3, s3) \<and>
           withRetries work 2 s0 =
             (Inl (Some e3), s3,
              [Invoke, Sleep (retry_delay e1 0), Invoke, Sleep (retry_delay e2 1), Invoke])"
proof -
  have step: "\<exists>e s'. work s = (Inl e, s') \<and> isRateLimited e" for s
    using fails [of s] by (cases "work s") (auto simp: isRateLimited_iff)
  obtain e1 s1 where w1: "work s0 = (Inl e1, s1)" and r1: "isRateLimited e1"
    using step by blast
  obtain e2 s2 where w2: "work s1 = (Inl e2, s2)" and r2: "isRateLimited e2"
    using step by blast
  obtain e3 s3 where w3: "work s2 = (Inl e3, s3)"
    using step by blast
  have "withRetries work 2 s0 =
          withRetries_loop work 2 (Suc 0) (Some e1) s1 [Invoke, Sleep (retry_delay e1 0)]"
    unfolding withRetries_def using loop_retries [of work s0 e1 s1 0 2 None "[]"] w1 r1 by simp
  also have "\<dots> = withRetries_loop work 2 (Suc (Suc 0)) (Some e2) s2
          [Invoke, Sleep (retry_delay e1 0), Invoke, Sleep (retry_delay e2 1)]"
    using loop_retries [of work s1 e2 s2 "Suc 0" 2 "Some e1"] w2 r2 by simp
  also have "\<dots> = (Inl (Some e3), s3,
          [Invoke, Sleep (retry_delay e1 0), Invoke, Sleep (retry_delay e2 1), Invoke])"
    using loop_rethrows [of "Suc (Suc 0)" 2 work s2 e3 s3 "Some e2"] w3 by simp
  finally show ?thesis using w1 w2 w3 by blast
qed

theorem withRetries_exhaustion_witness:
  "(\<forall>s. \<exists>e m. fst (exhausted_work s) = Inl e \<and> message e = Some m
        \<and> includes_str m ''RESOURCE_EXHAUSTED'') \<and>
   withRetries exhausted_work 2 0 =
     (Inl (Some \<lparr>instanceof_Error = True, message = Some ''RESOURCE_EXHAUSTED'', rest = 2\<rparr>), 3,
      [Invoke, Sleep (Num 2000), Invoke, Sleep (Num 4000), Invoke])"
proof -
  have h: "\<exists>e m. fst (exhausted_work s) = Inl e \<and> message e = Some m
        \<and> includes_str m ''RESOURCE_EXHAUSTED''" for s
    by (simp add: exhausted_work_def includes_str_def)
  from withRetries_exhaustion [of exhausted_work 0, OF h]
  have "withRetries exhausted_work 2 0 =
     (Inl (Some \<lparr>instanceof_Error = True, message = Some ''RESOURCE_EXHAUSTED'', rest = 2\<rparr>), 3,
      [Invoke, Sleep (Num 2000), Invoke, Sleep (Num 4000), Invoke])"
    by (auto simp: exhausted_work_def retry_delay_def no_hint_RESOURCE_EXHAUSTED numeral_2_eq_2)
  with h show ?thesis by blast
qed

text \<open>
  Claim C7 (non-retryable failures fail fast). When the first call of the work fails with
  a message that contains none of \<open>RESOURCE_EXHAUSTED\<close>, \<open>Too Many Requests\<close> and
  \<open>quota\<close>, \<open>withRetries\<close> makes that one call, no wait, and throws that same failure,
  for every retry bound of its domain (the non-negative ones).
\<close>

theorem withRetries_fails_fast:
  assumes "work s0 = (Inl e, s1)"
    and "message e = Some m"
    and "\<not> includes_str m ''RESOURCE_EXHAUSTED''"
    and "\<not> includes_str m ''Too Many Requests''"
    and "\<not> includes_str m ''quota''"
    and "0 \<le> maxRetries"
  shows "withRetries work maxRetries s0 = (Inl (Some e), s1, [Invoke])"
proof -
  have "\<not> isRateLimited e" using assms by (simp add: isRateLimited_iff)
  then show ?thesis
    unfolding withRetries_def
    using loop_rethrows [of 0 maxRetries work s0 e s1 None "[]"] assms(1,6)
    by simp
qed

theorem withRetries_fails_fast_witness:
  "denied_work 0 =
     (Inl \<lparr>instanceof_Error = True, message = Some ''API key not valid'', rest = 0\<rparr>, 1) \<and>
   \<not> includes_str ''API key not valid'' ''RESOURCE_EXHAUSTED'' \<and>
   \<not> includes_str ''API key not valid'' ''Too Many Requests'' \<and>
   \<not> includes_str ''API key not valid'' ''quota'' \<and>
   (0::int) \<le> 5 \<and>
   withRetries denied_work 5 0 =
     (Inl (Some \<lparr>instanceof_Error = True, message = Some ''API key not valid'', rest = 0\<rparr>), 1,
      [Invoke])"
proof -
  have w: "denied_work 0 =
     (Inl \<lparr>instanceof_Error = True, message = Some ''API key not valid'', rest = 0\<rparr>, 1)"
    by (simp add: denied_work_def)
  show ?thesis
    using w API_key_not_valid_plain
      withRetries_fails_fast [of denied_work 0
        "\<lparr>instanceof_Error = True, message = Some ''API key not valid'', rest = 0\<rparr>" 1
        "''API key not valid''" 5]
    by simp
qed

text \<open>
  Claim C10 (status of a quota failure). When the failure that reaches the catch handler
  of \<open>/api/edit-image\<close> has a message containing \<open>quota\<close> but neither
  \<open>RESOURCE_EXHAUSTED\<close> nor \<open>Too Many Requests\<close>, the response status is 500 and not
  429, although \<open>isRateLimited\<close> classifies the failure as retryable.
\<close>

theorem quota_status_500:
  assumes "message err = Some m"
    and "includes_str m ''quota''"
    and "\<not> includes_str m ''RESOURCE_EXHAUSTED''"
    and "\<not> includes_str m ''Too Many Requests''"
  shows "status (edit_image_catch err) = 500 \<and> status (edit_image_catch err) \<noteq> 429
         \<and> isRateLimited err"
  using assms Unknown_error_plain
  by (auto simp: edit_image_catch_def isRateLimited_iff Let_def)

theorem quota_status_500_witness:
  "message \<lparr>instanceof_Error = True, message = Some ''You exceeded your current quota'', rest = ()\<rparr>
     = Some ''You exceeded your current quota'' \<and>
   includes_str ''You exceeded your current quota'' ''quota'' \<and>
   \<not> includes_str ''You exceeded your current quota'' ''RESOURCE_EXHAUSTED'' \<and>
   \<not> includes_str ''You exceeded your current quota'' ''Too Many Requests'' \<and>
   status (edit_image_catch
     \<lparr>instanceof_Error = True, message = Some ''You exceeded your current quota'', rest = ()\<rparr>) = 500 \<and>
   isRateLimited
     \<lparr>instanceof_Error = True, message = Some ''You exceeded your current quota'', rest = ()\<rparr>"
  using quota_message_facts
    quota_status_500 [of
      "\<lparr>instanceof_Error = True, message = Some ''You exceeded your current quota'', rest = ()\<rparr>"
      "''You exceeded your current quota''"]
  by simp




text \<open>
  Claim C6 (backoff fallback, parse errors silenced). When \<open>parseRetryDelayMs\<close> finds
  no hint, the wait computed after attempt \<open>n\<close> is \<open>2000 * 2 ^ n\<close>. It finds none when
  the message is not JSON, when \<open>error\<close> or \<open>details\<close> is absent, when no entry of
  \<open>details\<close> is a RetryInfo, when that entry has no \<open>retryDelay\<close>, and when the
  \<open>retryDelay\<close> does not end in \<open>s\<close>. A unit of work that always fails with such a
  retryable failure is called \<open>k + 1\<close> times by \<open>withRetries work k\<close>, with the waits
  2000, 4000, ... between the calls, and what \<open>withRetries\<close> throws is the failure of
  the last call of the work: nothing of the parsing reaches the caller.
\<close>

theorem backoff_fallback:
  "(parseRetryDelayMs e = None \<longrightarrow> retry_delay e n = Num (2000 * 2 ^ n))
   \<and> (message e1 = Some m1 \<and> JSON_parse m1 = None \<longrightarrow> parseRetryDelayMs e1 = None)
   \<and> (message e2 = Some m2 \<and> JSON_parse m2 = Some data2 \<and> error_details data2 = None \<longrightarrow>
        parseRetryDelayMs e2 = None)
   \<and> (message e3 = Some m3 \<and> JSON_parse m3 = Some data3
        \<and> error_details data3 = Some (JArray ds3) \<and> find_RetryInfo ds3 = Inr None \<longrightarrow>
        parseRetryDelayMs e3 = None)
   \<and> (message e4 = Some m4 \<and> JSON_parse m4 = Some data4
        \<and> error_details data4 = Some (JArray ds4) \<and> find_RetryInfo ds4 = Inr (Some ri4)
        \<and> get_prop ri4 ''retryDelay'' = None \<longrightarrow>
        parseRetryDelayMs e4 = None)
   \<and> (message e5 = Some m5 \<and> JSON_parse m5 = Some data5
        \<and> error_details data5 = Some (JArray ds5) \<and> find_RetryInfo ds5 = Inr (Some ri5)
        \<and> get_prop ri5 ''retryDelay'' = Some (JString dl) \<and> \<not> endsWith dl ''s'' \<longrightarrow>
        parseRetryDelayMs e5 = None)
   \<and> ((\<forall>s. \<exists>e s'. work s = (Inl e, s') \<and> isRateLimited e \<and> parseRetryDelayMs e = None)
        \<and> 0 \<le> k \<longrightarrow>
        (\<exists>e s'. work (((\<lambda>s. snd (work s)) ^^ nat k) s0) = (Inl e, s') \<and>
           withRetries work k s0 =
             (Inl (Some e), s',
              concat (map (\<lambda>n. [Invoke, Sleep (Num (2000 * 2 ^ n))]) [0..<nat k]) @ [Invoke])))"
proof (intro conjI impI)
  assume "parseRetryDelayMs e = None"
  then show "retry_delay e n = Num (2000 * 2 ^ n)" by (rule backoff_when_no_hint)
next
  assume "message e1 = Some m1 \<and> JSON_parse m1 = None"
  then show "parseRetryDelayMs e1 = None" using parseRetryDelayMs_malformed by blast
next
  assume "message e2 = Some m2 \<and> JSON_parse m2 = Some data2 \<and> error_details data2 = None"
  then show "parseRetryDelayMs e2 = None" using parseRetryDelayMs_no_details by blast
next
  assume a: "message e3 = Some m3 \<and> JSON_parse m3 = Some data3
        \<and> error_details data3 = Some (JArray ds3) \<and> find_RetryInfo ds3 = Inr None"
  then show "parseRetryDelayMs e3 = None"
    using parseRetryDelayMs_details [of e3 m3 data3 ds3]
    by (simp add: opt_chain_def delay_ms_def)
next
  assume a: "message e4 = Some m4 \<and> JSON_parse m4 = Some data4
        \<and> error_details data4 = Some (JArray ds4) \<and> find_RetryInfo ds4 = Inr (Some ri4)
        \<and> get_prop ri4 ''retryDelay'' = None"
  then show "parseRetryDelayMs e4 = None"
    using parseRetryDelayMs_entry [of e4 m4 data4 ds4 ri4] by (simp add: delay_ms_def)
next
  assume a: "message e5 = Some m5 \<and> JSON_parse m5 = Some data5
        \<and> error_details data5 = Some (JArray ds5) \<and> find_RetryInfo ds5 = Inr (Some ri5)
        \<and> get_prop ri5 ''retryDelay'' = Some (JString dl) \<and> \<not> endsWith dl ''s''"
  then show "parseRetryDelayMs e5 = None"
    using parseRetryDelayMs_entry [of e5 m5 data5 ds5 ri5] delay_ms_not_seconds [of dl] by simp
next
  assume a: "(\<forall>s. \<exists>e s'. work s = (Inl e, s') \<and> isRateLimited e \<and> parseRetryDelayMs e = None)
        \<and> 0 \<le> k"
  then have fails: "\<exists>e s'. work s = (Inl e, s') \<and> isRateLimited e \<and> parseRetryDelayMs e = None" for s
    by blast
  show "\<exists>e s'. work (((\<lambda>s. snd (work s)) ^^ nat k) s0) = (Inl e, s') \<and>
           withRetries work k s0 =
             (Inl (Some e), s',
              concat (map (\<lambda>n. [Invoke, Sleep (Num (2000 * 2 ^ n))]) [0..<nat k]) @ [Invoke])"
    unfolding withRetries_def
    using loop_backoff [of work k 0 "nat k" s0 None "[]", OF fails] a by simp
qed

theorem backoff_fallback_witness:
  "retry_delay \<lparr>instanceof_Error = True, message = Some ''RESOURCE_EXHAUSTED'', rest = ()\<rparr> 3
     = Num 16000
   \<and> parseRetryDelayMs \<lparr>instanceof_Error = True, message = Some ''RESOURCE_EXHAUSTED'', rest = ()\<rparr> = None
   \<and> parseRetryDelayMs \<lparr>instanceof_Error = True, message = Some no_details_doc, rest = ()\<rparr> = None
   \<and> parseRetryDelayMs \<lparr>instanceof_Error = True, message = Some no_RetryInfo_doc, rest = ()\<rparr> = None
   \<and> parseRetryDelayMs \<lparr>instanceof_Error = True, message = Some no_retryDelay_doc, rest = ()\<rparr> = None
   \<and> parseRetryDelayMs \<lparr>instanceof_Error = True, message = Some minutes_doc, rest = ()\<rparr> = None
   \<and> withRetries exhausted_work 3 0 =
       (Inl (Some \<lparr>instanceof_Error = True, message = Some ''RESOURCE_EXHAUSTED'', rest = 3\<rparr>), 4,
        [Invoke, Sleep (Num 2000), Invoke, Sleep (Num 4000), Invoke, Sleep (Num 8000), Invoke])"
proof -
  have fails: "\<forall>s. \<exists>e s'. exhausted_work s = (Inl e, s') \<and> isRateLimited e
       \<and> parseRetryDelayMs e = None"
    by (simp add: exhausted_work_def isRateLimited_iff includes_str_def no_hint_RESOURCE_EXHAUSTED)
  have upt: "[0..<nat 3] = [0, 1, 2]" by (simp add: upt_conv_Cons)
  have pow: "((\<lambda>s. snd (exhausted_work s)) ^^ nat 3) 0 = 3"
    by (simp add: exhausted_work_def eval_nat_numeral)
  have some: "\<And>x. x \<noteq> None \<Longrightarrow> x = Some (the x)" by auto
  show ?thesis
    using backoff_fallback [where e = "\<lparr>instanceof_Error = True, message = Some ''RESOURCE_EXHAUSTED'', rest = ()\<rparr>"
        and n = 3
        and ?e1.0 = "\<lparr>instanceof_Error = True, message = Some ''RESOURCE_EXHAUSTED'', rest = ()\<rparr>"
        and ?m1.0 = "''RESOURCE_EXHAUSTED''"
        and ?e2.0 = "\<lparr>instanceof_Error = True, message = Some no_details_doc, rest = ()\<rparr>"
        and ?m2.0 = no_details_doc and ?data2.0 = "the (JSON_parse no_details_doc)"
        and ?e3.0 = "\<lparr>instanceof_Error = True, message = Some no_RetryInfo_doc, rest = ()\<rparr>"
        and ?m3.0 = no_RetryInfo_doc and ?data3.0 = "the (JSON_parse no_RetryInfo_doc)"
        and ?ds3.0 = "[help_entry]"
        and ?e4.0 = "\<lparr>instanceof_Error = True, message = Some no_retryDelay_doc, rest = ()\<rparr>"
        and ?m4.0 = no_retryDelay_doc and ?data4.0 = "the (JSON_parse no_retryDelay_doc)"
        and ?ds4.0 = "[JObject [(''@type'', JString RetryInfo)]]"
        and ?ri4.0 = "JObject [(''@type'', JString RetryInfo)]"
        and ?e5.0 = "\<lparr>instanceof_Error = True, message = Some minutes_doc, rest = ()\<rparr>"
        and ?m5.0 = minutes_doc and ?data5.0 = "the (JSON_parse minutes_doc)"
        and ?ds5.0 = "[hint_entry ''2m'']" and ?ri5.0 = "hint_entry ''2m''" and dl = "''2m''"
        and work = exhausted_work and k = 3 and ?s0.0 = 0]
      fails fallback_docs some [of "JSON_parse no_details_doc"]
      some [of "JSON_parse no_RetryInfo_doc"] some [of "JSON_parse no_retryDelay_doc"]
      some [of "JSON_parse minutes_doc"] upt pow
    by (simp add: exhausted_work_def)
qed

text \<open>
  Claim C9 (a negative hint is a hint). When the message is valid JSON and the first
  RetryInfo entry of its \<open>details\<close> has the \<open>retryDelay\<close> \<open>-3s\<close>,
  \<open>parseRetryDelayMs\<close> returns \<open>-3000\<close>, not "no hint", and line 89 computes
  \<open>-3000\<close> instead of the exponential default; the same holds for every \<open>retryDelay\<close>
  of the form \<open>-digits s\<close> whose milliseconds stay below \<open>2 ^ 53\<close>, where doubles are
  exact. When such a failure is classified retryable and a retry is left, the wait
  \<open>withRetries\<close> makes before the next attempt is that negative number.
\<close>

theorem negative_hint:
  "(message e = Some m \<and> JSON_parse m = Some data \<and> error_details data = Some (JArray ds)
      \<and> find_RetryInfo ds = Inr (Some ri)
      \<and> get_prop ri ''retryDelay'' = Some (JString ''-3s'') \<longrightarrow>
      parseRetryDelayMs e = Some (Num (- 3000)) \<and> retry_delay e n = Num (- 3000))
   \<and> (message e1 = Some m1 \<and> JSON_parse m1 = Some data1
      \<and> error_details data1 = Some (JArray ds1) \<and> find_RetryInfo ds1 = Inr (Some ri1)
      \<and> get_prop ri1 ''retryDelay'' = Some (JString (''-'' @ dg @ ''s''))
      \<and> dg \<noteq> [] \<and> (\<forall>c\<in>set dg. is_digit c) \<and> digits_val dg * 1000 < 2 ^ 53 \<longrightarrow>
      parseRetryDelayMs e1 = Some (Num (- (of_nat (digits_val dg) * 1000)))
      \<and> retry_delay e1 n1 = Num (- (of_nat (digits_val dg) * 1000)))
   \<and> (work s0 = (Inl e', s1) \<and> isRateLimited e' \<and> parseRetryDelayMs e' = Some (Num (- 3000))
      \<and> 0 < maxRetries \<longrightarrow>
      take 2 (snd (snd (withRetries work maxRetries s0))) = [Invoke, Sleep (Num (- 3000))])"
proof (intro conjI impI)
  assume a: "message e = Some m \<and> JSON_parse m = Some data \<and> error_details data = Some (JArray ds)
      \<and> find_RetryInfo ds = Inr (Some ri)
      \<and> get_prop ri ''retryDelay'' = Some (JString ''-3s'')"
  then show p: "parseRetryDelayMs e = Some (Num (- 3000))"
    using parseRetryDelayMs_entry [of e m data ds ri] minus3s by simp
  then show "retry_delay e n = Num (- 3000)" by (simp add: retry_delay_def)
next
  assume a: "message e1 = Some m1 \<and> JSON_parse m1 = Some data1
      \<and> error_details data1 = Some (JArray ds1) \<and> find_RetryInfo ds1 = Inr (Some ri1)
      \<and> get_prop ri1 ''retryDelay'' = Some (JString (''-'' @ dg @ ''s''))
      \<and> dg \<noteq> [] \<and> (\<forall>c\<in>set dg. is_digit c) \<and> digits_val dg * 1000 < 2 ^ 53"
  then show p: "parseRetryDelayMs e1 = Some (Num (- (of_nat (digits_val dg) * 1000)))"
    using parseRetryDelayMs_entry [of e1 m1 data1 ds1 ri1] delay_ms_negative [of dg] by simp
  then show "retry_delay e1 n1 = Num (- (of_nat (digits_val dg) * 1000))"
    by (simp add: retry_delay_def)
next
  assume a: "work s0 = (Inl e', s1) \<and> isRateLimited e' \<and> parseRetryDelayMs e' = Some (Num (- 3000))
      \<and> 0 < maxRetries"
  then show "take 2 (snd (snd (withRetries work maxRetries s0))) = [Invoke, Sleep (Num (- 3000))]"
    using first_wait_is_hint [of work s0 e' s1 maxRetries] by (simp add: retry_delay_def)
qed

theorem negative_hint_witness:
  "parseRetryDelayMs \<lparr>instanceof_Error = True, message = Some negative_doc, rest = ()\<rparr>
     = Some (Num (- 3000))
   \<and> retry_delay \<lparr>instanceof_Error = True, message = Some negative_doc, rest = ()\<rparr> 0 = Num (- 3000)
   \<and> isRateLimited \<lparr>instanceof_Error = True, message = Some negative_doc, rest = ()\<rparr>
   \<and> take 2 (snd (snd (withRetries (fails_once negative_doc) 2 0)))
       = [Invoke, Sleep (Num (- 3000))]"
proof -
  have some: "\<And>x. x \<noteq> None \<Longrightarrow> x = Some (the x)" by auto
  have r: "isRateLimited \<lparr>instanceof_Error = True, message = Some negative_doc, rest = ()\<rparr>"
    using negative_doc_facts(5) by (simp add: isRateLimited_iff)
  have f: "fails_once negative_doc 0 =
      (Inl \<lparr>instanceof_Error = True, message = Some negative_doc, rest = ()\<rparr>, 1)"
    by (simp add: fails_once_def)
  show ?thesis
    using negative_hint [where e = "\<lparr>instanceof_Error = True, message = Some negative_doc, rest = ()\<rparr>"
        and m = negative_doc and data = "the (JSON_parse negative_doc)"
        and ds = "[help_entry, hint_entry ''-3s'']" and ri = "hint_entry ''-3s''" and n = 0
        and ?e1.0 = "\<lparr>instanceof_Error = True, message = Some negative_doc, rest = ()\<rparr>"
        and ?m1.0 = negative_doc and ?data1.0 = "the (JSON_parse negative_doc)"
        and ?ds1.0 = "[help_entry, hint_entry ''-3s'']" and ?ri1.0 = "hint_entry ''-3s''"
        and dg = "''3''" and ?n1.0 = 0
        and work = "fails_once negative_doc" and ?s0.0 = 0 and ?s1.0 = 1 and maxRetries = 2
        and e' = "\<lparr>instanceof_Error = True, message = Some negative_doc, rest = ()\<rparr>"]
      negative_doc_facts some [of "JSON_parse negative_doc"] r f
    by simp
qed

section \<open>Properties of the Throttler\<close>

lemma spaced_snoc:
  "spaced i ts \<Longrightarrow> (ts \<noteq> [] \<Longrightarrow> i \<le> t - last ts) \<Longrightarrow> spaced i (ts @ [t])"
  unfolding spaced_def
proof (intro allI impI)
  fix n
  assume sp: "\<forall>n. Suc n < length ts \<longrightarrow> i \<le> ts ! Suc n - ts ! n"
    and l: "ts \<noteq> [] \<Longrightarrow> i \<le> t - last ts"
    and n: "Suc n < length (ts @ [t])"
  show "i \<le> (ts @ [t]) ! Suc n - (ts @ [t]) ! n"
  proof (cases "Suc n < length ts")
    case True
    then show ?thesis using sp by (simp add: nth_append)
  next
    case False
    then have e: "Suc n = length ts" using n by simp
    then have "ts \<noteq> []" by auto
    moreover have "last ts = ts ! n"
      using e [symmetric] \<open>ts \<noteq> []\<close> by (simp add: last_conv_nth)
    ultimately show ?thesis using l e by (simp add: nth_append)
  qed
qed

lemma consistent_init: "consistent (init i c0)"
  by (simp add: consistent_def idle_def log_ok_def init_def settled_below_def spaced_def)

lemma consistent_tick: "consistent s \<Longrightarrow> consistent (s\<lparr>clock := clock s + int d\<rparr>)"
  by (simp add: consistent_def idle_def busy_executing_def busy_sleeping_def log_ok_def)

lemma consistent_run:
  assumes "ready k s"
  shows "consistent (run k dt s)"
proof (cases "0 < lastTime s + interval s - clock s")
  case True
  then have r: "run k dt s = s\<lparr>calls := (calls s)[k := Sleeping (lastTime s + interval s)]\<rparr>"
    by (simp add: run_def Let_def)
  have "busy_sleeping (run k dt s)"
    using assms unfolding r ready_def busy_sleeping_def
    by (auto simp: settled_below_def queued_from_def)
  moreover have "log_ok (run k dt s)"
    using assms unfolding r ready_def log_ok_def by simp
  ultimately show ?thesis by (simp add: consistent_def)
next
  case False
  then have r: "run k dt s =
      s\<lparr>clock := clock s + int dt, lastTime := clock s + int dt,
        calls := (calls s)[k := Executing],
        dispatched := dispatched s @ [(k, clock s + int dt)]\<rparr>"
    by (simp add: run_def Let_def invoke_def)
  have "busy_executing (run k dt s)"
    using assms unfolding r ready_def busy_executing_def
    by (auto simp: settled_below_def queued_from_def)
  moreover have "log_ok (run k dt s)"
  proof -
    have l: "log_ok s" and n: "length (dispatched s) = k" using assms by (simp_all add: ready_def)
    have "spaced (interval s) (map snd (dispatched s) @ [clock s + int dt])"
    proof (rule spaced_snoc)
      show "spaced (interval s) (map snd (dispatched s))" using l by (simp add: log_ok_def)
    next
      assume "map snd (dispatched s) \<noteq> []"
      then have "lastTime s = last (map snd (dispatched s))"
        using l by (simp add: log_ok_def last_map)
      then show "interval s \<le> clock s + int dt - last (map snd (dispatched s))"
        using False by simp
    qed
    then show ?thesis using l n unfolding r log_ok_def by simp
  qed
  ultimately show ?thesis by (simp add: consistent_def)
qed

lemma upt_snoc_len: "m \<le> n \<Longrightarrow> [m..<n] @ [n] = [m..<Suc n]"
  by simp

lemma consistent_schedule:
  assumes "consistent s"
  shows "consistent (schedule dt s)"
proof (cases "running s")
  case False
  then have i: "idle s" and l: "log_ok s"
    using assms by (auto simp: consistent_def busy_executing_def busy_sleeping_def)
  have "ready (length (calls s)) (s\<lparr>calls := calls s @ [Queued], running := True\<rparr>)"
    using i l unfolding ready_def idle_def log_ok_def
    by (auto simp: settled_below_def queued_from_def nth_append)
  then have "consistent (run (length (calls s)) dt (s\<lparr>calls := calls s @ [Queued], running := True\<rparr>))"
    by (rule consistent_run)
  then show ?thesis using False by (simp add: schedule_def Let_def)
next
  case True
  then have sch: "schedule dt s =
      s\<lparr>calls := calls s @ [Queued], queue := queue s @ [length (calls s)]\<rparr>"
    by (simp add: schedule_def Let_def)
  have l: "log_ok (schedule dt s)" using assms unfolding sch consistent_def log_ok_def by simp
  from True assms consider (e) "busy_executing s" | (sl) "busy_sleeping s"
    by (auto simp: consistent_def idle_def)
  then show ?thesis
  proof cases
    case e
    then have "busy_executing (schedule dt s)"
      unfolding sch busy_executing_def
      by (auto simp: settled_below_def queued_from_def nth_append)
    then show ?thesis using l by (simp add: consistent_def)
  next
    case sl
    then have "busy_sleeping (schedule dt s)"
      unfolding sch busy_sleeping_def
      by (auto simp: settled_below_def queued_from_def nth_append)
    then show ?thesis using l by (simp add: consistent_def)
  qed
qed

lemma sleeping_is_next:
  assumes "consistent s" and "k < length (calls s)" and "calls s ! k = Sleeping d"
  shows "running s \<and> length (dispatched s) = k \<and> settled_below k (calls s)
         \<and> lastTime s + interval s \<le> d
         \<and> queued_from (Suc k) (calls s) \<and> queue s = [Suc k..<length (calls s)] \<and> log_ok s"
proof -
  have l: "log_ok s" using assms(1) by (simp add: consistent_def)
  from assms(1) consider (i) "idle s" | (e) "busy_executing s" | (sl) "busy_sleeping s"
    by (auto simp: consistent_def)
  then show ?thesis
  proof cases
    case i
    then show ?thesis using assms(2,3) by (auto simp: idle_def settled_below_def)
  next
    case e
    then obtain n where n: "n < length (calls s)" "settled_below n (calls s)"
      "calls s ! n = Executing" "queued_from (Suc n) (calls s)"
      by (auto simp: busy_executing_def)
    have "k < n \<or> k = n \<or> Suc n \<le> k" by linarith
    then show ?thesis using n assms(2,3) by (auto simp: settled_below_def queued_from_def)
  next
    case sl
    then obtain n d' where n: "running s" "length (dispatched s) = n" "n < length (calls s)"
      "settled_below n (calls s)" "calls s ! n = Sleeping d'" "lastTime s + interval s \<le> d'"
      "queued_from (Suc n) (calls s)" "queue s = [Suc n..<length (calls s)]"
      by (auto simp: busy_sleeping_def)
    have "k < n \<or> k = n \<or> Suc n \<le> k" by linarith
    then have "k = n" using n assms(2,3) by (auto simp: settled_below_def queued_from_def)
    then show ?thesis using n l assms(3) by simp
  qed
qed

lemma executing_is_last:
  assumes "consistent s" and "k < length (calls s)" and "calls s ! k = Executing"
  shows "running s \<and> length (dispatched s) = Suc k \<and> settled_below k (calls s)
         \<and> queued_from (Suc k) (calls s) \<and> queue s = [Suc k..<length (calls s)] \<and> log_ok s"
proof -
  have l: "log_ok s" using assms(1) by (simp add: consistent_def)
  from assms(1) consider (i) "idle s" | (e) "busy_executing s" | (sl) "busy_sleeping s"
    by (auto simp: consistent_def)
  then show ?thesis
  proof cases
    case i
    then show ?thesis using assms(2,3) by (auto simp: idle_def settled_below_def)
  next
    case sl
    then obtain n d where n: "n < length (calls s)" "settled_below n (calls s)"
      "calls s ! n = Sleeping d" "queued_from (Suc n) (calls s)"
      by (auto simp: busy_sleeping_def)
    have "k < n \<or> k = n \<or> Suc n \<le> k" by linarith
    then show ?thesis using n assms(2,3) by (auto simp: settled_below_def queued_from_def)
  next
    case e
    then obtain n where n: "running s" "length (dispatched s) = Suc n" "n < length (calls s)"
      "settled_below n (calls s)" "calls s ! n = Executing"
      "queued_from (Suc n) (calls s)" "queue s = [Suc n..<length (calls s)]"
      by (auto simp: busy_executing_def)
    have "k < n \<or> k = n \<or> Suc n \<le> k" by linarith
    then have "k = n" using n assms(2,3) by (auto simp: settled_below_def queued_from_def)
    then show ?thesis using n l by simp
  qed
qed

lemma consistent_timeout:
  assumes "consistent s" and "k < length (calls s)" and "calls s ! k = Sleeping d" and "d \<le> clock s"
  shows "consistent (invoke k s)"
proof -
  note f = sleeping_is_next [OF assms(1-3)]
  have "busy_executing (invoke k s)"
    using f assms(2) unfolding invoke_def busy_executing_def
    by (auto simp: settled_below_def queued_from_def)
  moreover have "log_ok (invoke k s)"
  proof -
    have l: "log_ok s" and n: "length (dispatched s) = k" using f by simp_all
    have "spaced (interval s) (map snd (dispatched s) @ [clock s])"
    proof (rule spaced_snoc)
      show "spaced (interval s) (map snd (dispatched s))" using l by (simp add: log_ok_def)
    next
      assume "map snd (dispatched s) \<noteq> []"
      then have "lastTime s = last (map snd (dispatched s))"
        using l by (simp add: log_ok_def last_map)
      then show "interval s \<le> clock s - last (map snd (dispatched s))"
        using f assms(4) by simp
    qed
    then show ?thesis using l n unfolding invoke_def log_ok_def by simp
  qed
  ultimately show ?thesis by (simp add: consistent_def)
qed

lemma settle_last:
  assumes "queue s = []"
  shows "settle k out dt s = s\<lparr>calls := (calls s)[k := Settled out], running := False\<rparr>"
  using assms by (simp add: settle_def Let_def)

lemma settle_next:
  assumes "queue s = next # waiting"
  shows "settle k out dt s =
     run next dt (s\<lparr>calls := (calls s)[k := Settled out], queue := waiting, running := True\<rparr>)"
  using assms by (simp add: settle_def Let_def)

lemma settled_below_update:
  "settled_below k cs \<Longrightarrow> k < length cs \<Longrightarrow> settled_below (Suc k) (cs[k := Settled out])"
  by (auto simp: settled_below_def nth_list_update less_Suc_eq)

lemma ready_after_settle:
  assumes "consistent s" and "k < length (calls s)" and "calls s ! k = Executing"
    and "Suc k < length (calls s)"
  shows "ready (Suc k)
     (s\<lparr>calls := (calls s)[k := Settled out],
       queue := [Suc (Suc k)..<length (calls s)], running := True\<rparr>)"
proof -
  note f = executing_is_last [OF assms(1-3)]
  have "settled_below (Suc k) ((calls s)[k := Settled out])"
    using f assms(2) by (simp add: settled_below_update)
  moreover have "(calls s)[k := Settled out] ! Suc k = Queued"
    using f assms(4) by (simp add: queued_from_def)
  moreover have "queued_from (Suc (Suc k)) ((calls s)[k := Settled out])"
    using f by (auto simp: queued_from_def)
  moreover have "log_ok (s\<lparr>calls := (calls s)[k := Settled out],
       queue := [Suc (Suc k)..<length (calls s)], running := True\<rparr>)"
    using f by (simp add: log_ok_def)
  ultimately show ?thesis using f assms(4) by (simp add: ready_def)
qed

lemma consistent_settle:
  assumes "consistent s" and "k < length (calls s)" and "calls s ! k = Executing"
  shows "consistent (settle k out dt s)"
proof -
  note f = executing_is_last [OF assms]
  show ?thesis
  proof (cases "Suc k < length (calls s)")
    case False
    then have q: "queue s = []" and len: "length (calls s) = Suc k"
      using f assms(2) by simp_all
    have "idle (s\<lparr>calls := (calls s)[k := Settled out], running := False\<rparr>)"
      using f assms(2) q len settled_below_update [of k "calls s" out]
      by (simp add: idle_def)
    moreover have "log_ok (s\<lparr>calls := (calls s)[k := Settled out], running := False\<rparr>)"
      using f by (simp add: log_ok_def)
    ultimately show ?thesis unfolding settle_last [OF q] by (simp add: consistent_def)
  next
    case True
    then have q: "queue s = Suc k # [Suc (Suc k)..<length (calls s)]"
      using f by (simp add: upt_conv_Cons)
    show ?thesis
      unfolding settle_next [OF q]
      by (rule consistent_run) (rule ready_after_settle [OF assms True])
  qed
qed

lemma consistent_step:
  assumes "consistent s" and "step ev s = Some s'"
  shows "consistent s'"
proof (cases ev)
  case (Tick d)
  then show ?thesis using assms consistent_tick [of s d] by auto
next
  case (Schedule dt)
  then show ?thesis using assms consistent_schedule [of s dt] by auto
next
  case (Timeout k)
  then show ?thesis
    using assms consistent_timeout [of s k] by (auto split: if_splits call.splits)
next
  case (Settle k out dt)
  then show ?thesis
    using assms consistent_settle [of s k out dt] by (auto split: if_splits)
qed

lemma consistent_exec:
  "consistent s \<Longrightarrow> exec evs s = Some s' \<Longrightarrow> consistent s'"
proof (induction evs arbitrary: s)
  case Nil
  then show ?case by simp
next
  case (Cons ev evs)
  then show ?case by (auto split: option.splits dest: consistent_step)
qed

lemma reachable_consistent: "exec evs (init i c0) = Some s \<Longrightarrow> consistent s"
  using consistent_exec [OF consistent_init] by blast



lemma dispatched_step:
  "step ev s = Some s' \<Longrightarrow> prefix (dispatched s) (dispatched s')"
  by (cases ev) (auto simp: schedule_def run_def invoke_def settle_def Let_def
      split: if_splits call.splits list.splits)

lemma at_most_one_executing:
  assumes "consistent s" and "j < length (calls s)" and "k < length (calls s)"
    and "calls s ! j = Executing" and "calls s ! k = Executing"
  shows "j = k"
  using executing_is_last [OF assms(1,2,4)] executing_is_last [OF assms(1,3,5)] by simp

text \<open>Settling the executing call: what the state looks like afterwards.\<close>

lemma settle_executing:
  assumes "consistent s" and "k < length (calls s)" and "calls s ! k = Executing"
  shows "consistent (settle k out dt s)
    \<and> length (calls (settle k out dt s)) = length (calls s)
    \<and> queue (settle k out dt s) = tl (queue s)
    \<and> running (settle k out dt s) = (queue s \<noteq> [])
    \<and> calls (settle k out dt s) ! k = Settled out
    \<and> (\<forall>j o'. j < length (calls s) \<and> j \<noteq> k \<longrightarrow>
          (calls (settle k out dt s) ! j = Settled o') = (calls s ! j = Settled o'))"
proof -
  note f = executing_is_last [OF assms]
  have i': "consistent (settle k out dt s)" by (rule consistent_settle [OF assms])
  show ?thesis
  proof (cases "queue s")
    case Nil
    then show ?thesis using i' assms(2) by (simp add: settle_last)
  next
    case (Cons q waiting)
    then have q: "q = Suc k" and ql: "q < length (calls s)" and qq: "calls s ! q = Queued"
      using f by (auto simp: upt_eq_Cons_conv queued_from_def)
    show ?thesis
      using i' q ql qq assms(2) Cons
      by (auto simp: settle_next [OF Cons] run_def invoke_def Let_def nth_list_update)
  qed
qed

lemma finish_executing:
  assumes "consistent s" and "k < length (calls s)" and "calls s ! k = Executing"
  shows "finish_events outs s = [Settle k (outs k) 0]"
proof -
  note f = executing_is_last [OF assms]
  have "(if Suc k < length (calls s) then calls s ! Suc k else Queued) = Queued"
    using f by (simp add: queued_from_def)
  then show ?thesis using f assms(2,3) by (simp add: finish_events_def Let_def)
qed

lemma finish_sleeping:
  assumes "consistent s" and "k < length (calls s)" and "calls s ! k = Sleeping d"
  shows "finish_events outs s = [Tick (nat (d - clock s)), Timeout k, Settle k (outs k) 0]"
  using sleeping_is_next [OF assms] assms(2,3) by (simp add: finish_events_def Let_def)

text \<open>Letting the call in progress finish.\<close>

lemma finish_one:
  assumes "consistent s" and "running s"
  shows "\<exists>s' a. exec (finish_events outs s) s = Some s' \<and> consistent s'
      \<and> length (calls s') = length (calls s)
      \<and> queue s' = tl (queue s) \<and> running s' = (queue s \<noteq> [])
      \<and> a < length (calls s) \<and> (\<forall>o'. calls s ! a \<noteq> Settled o')
      \<and> calls s' ! a = Settled (outs a)
      \<and> (\<forall>j o'. j < length (calls s) \<and> j \<noteq> a \<longrightarrow>
            (calls s' ! j = Settled o') = (calls s ! j = Settled o'))"
proof -
  from assms consider (e) "busy_executing s" | (sl) "busy_sleeping s"
    by (auto simp: consistent_def idle_def)
  then show ?thesis
  proof cases
    case e
    then obtain k where k: "k < length (calls s)" "calls s ! k = Executing"
      by (auto simp: busy_executing_def)
    have "exec (finish_events outs s) s = Some (settle k (outs k) 0 s)"
      using k by (simp add: finish_executing [OF assms(1) k])
    then show ?thesis
      using settle_executing [OF assms(1) k, of "outs k" 0] k by (intro exI [of _ k] exI) simp
  next
    case sl
    then obtain k d where k: "k < length (calls s)" "calls s ! k = Sleeping d"
      by (auto simp: busy_sleeping_def)
    let ?s1 = "s\<lparr>clock := clock s + int (nat (d - clock s))\<rparr>"
    let ?s2 = "invoke k ?s1"
    have i1: "consistent ?s1" by (rule consistent_tick [OF assms(1)])
    have i2: "consistent ?s2" using consistent_timeout [OF i1, of k d] k by simp
    have k2: "k < length (calls ?s2)" "calls ?s2 ! k = Executing"
      using k by (simp_all add: invoke_def)
    have "exec (finish_events outs s) s = Some (settle k (outs k) 0 ?s2)"
      using k k2 by (simp add: finish_sleeping [OF assms(1) k])
    moreover have "length (calls ?s2) = length (calls s)" "queue ?s2 = queue s"
      "\<forall>j o'. j < length (calls s) \<and> j \<noteq> k \<longrightarrow>
          (calls ?s2 ! j = Settled o') = (calls s ! j = Settled o')"
      by (simp_all add: invoke_def)
    ultimately show ?thesis
      using settle_executing [OF i2 k2, of "outs k" 0] k
      by (intro exI [of _ k] exI) simp
  qed
qed

lemma idle_all_settled:
  "consistent s \<Longrightarrow> \<not> running s \<Longrightarrow> j < length (calls s) \<Longrightarrow> \<exists>o'. calls s ! j = Settled o'"
  by (auto simp: consistent_def busy_executing_def busy_sleeping_def idle_def settled_below_def)

lemma drain_all:
  "consistent s \<Longrightarrow> running s \<Longrightarrow> length (queue s) = m \<Longrightarrow>
   \<exists>s'. drain outs (Suc m) s = Some s' \<and> consistent s' \<and> \<not> running s'
      \<and> length (calls s') = length (calls s)
      \<and> (\<forall>j<length (calls s).
            (\<forall>o'. calls s ! j = Settled o' \<longrightarrow> calls s' ! j = Settled o')
            \<and> ((\<forall>o'. calls s ! j \<noteq> Settled o') \<longrightarrow> calls s' ! j = Settled (outs j)))"
proof (induction m arbitrary: s)
  case 0
  obtain s1 a where s1: "exec (finish_events outs s) s = Some s1" "consistent s1"
    "length (calls s1) = length (calls s)" "running s1 = (queue s \<noteq> [])"
    "a < length (calls s)" "\<forall>o'. calls s ! a \<noteq> Settled o'" "calls s1 ! a = Settled (outs a)"
    "\<forall>j o'. j < length (calls s) \<and> j \<noteq> a \<longrightarrow>
            (calls s1 ! j = Settled o') = (calls s ! j = Settled o')"
    using finish_one [OF "0.prems"(1,2), of outs] by blast
  have nr: "\<not> running s1" using s1(4) "0.prems"(3) by simp
  have "\<forall>j<length (calls s).
            (\<forall>o'. calls s ! j = Settled o' \<longrightarrow> calls s1 ! j = Settled o')
            \<and> ((\<forall>o'. calls s ! j \<noteq> Settled o') \<longrightarrow> calls s1 ! j = Settled (outs j))"
  proof (intro allI impI conjI)
    fix j o'
    assume "j < length (calls s)" "calls s ! j = Settled o'"
    then show "calls s1 ! j = Settled o'" using s1(6,8) by metis
  next
    fix j
    assume j: "j < length (calls s)" "\<forall>o'. calls s ! j \<noteq> Settled o'"
    obtain o' where "calls s1 ! j = Settled o'"
      using idle_all_settled [OF s1(2) nr, of j] j(1) s1(3) by auto
    then have "j = a" using s1(8) j by metis
    then show "calls s1 ! j = Settled (outs j)" using s1(7) by simp
  qed
  then show ?case using s1 nr by simp
next
  case (Suc m)
  obtain s1 a where s1: "exec (finish_events outs s) s = Some s1" "consistent s1"
    "length (calls s1) = length (calls s)" "running s1 = (queue s \<noteq> [])"
    "queue s1 = tl (queue s)"
    "a < length (calls s)" "\<forall>o'. calls s ! a \<noteq> Settled o'" "calls s1 ! a = Settled (outs a)"
    "\<forall>j o'. j < length (calls s) \<and> j \<noteq> a \<longrightarrow>
            (calls s1 ! j = Settled o') = (calls s ! j = Settled o')"
    using finish_one [OF Suc.prems(1,2), of outs] by blast
  have "running s1" and "length (queue s1) = m" using s1(4,5) Suc.prems(3) by auto
  from Suc.IH [OF s1(2) this]
  obtain s' where s': "drain outs (Suc m) s1 = Some s'" "consistent s'" "\<not> running s'"
    "length (calls s') = length (calls s1)"
    "\<forall>j<length (calls s1).
            (\<forall>o'. calls s1 ! j = Settled o' \<longrightarrow> calls s' ! j = Settled o')
            \<and> ((\<forall>o'. calls s1 ! j \<noteq> Settled o') \<longrightarrow> calls s' ! j = Settled (outs j))"
    by blast
  have "\<forall>j<length (calls s).
            (\<forall>o'. calls s ! j = Settled o' \<longrightarrow> calls s' ! j = Settled o')
            \<and> ((\<forall>o'. calls s ! j \<noteq> Settled o') \<longrightarrow> calls s' ! j = Settled (outs j))"
  proof (intro allI impI conjI)
    fix j o'
    assume j: "j < length (calls s)" "calls s ! j = Settled o'"
    then have "calls s1 ! j = Settled o'" using s1(7,9) by metis
    then show "calls s' ! j = Settled o'" using s'(5) j(1) s1(3) by simp
  next
    fix j
    assume j: "j < length (calls s)" "\<forall>o'. calls s ! j \<noteq> Settled o'"
    show "calls s' ! j = Settled (outs j)"
    proof (cases "j = a")
      case True
      then show ?thesis using s1(8) s'(5) j(1) s1(3) by simp
    next
      case False
      then have "\<forall>o'. calls s1 ! j \<noteq> Settled o'" using s1(9) j by simp
      then show ?thesis using s'(5) j(1) s1(3) by simp
    qed
  qed
  moreover have "drain outs (Suc (Suc m)) s = Some s'" using s1(1) s'(1) by simp
  ultimately show ?case using s' s1(3) by simp
qed

lemma three_calls_run: "exec three_calls (init 100 1000) = Some after_three_calls"
  by (simp add: three_calls_def after_three_calls_def init_def schedule_def run_def invoke_def
      settle_def Let_def)

lemma two_waiting_run: "exec two_waiting (init 100 1000) = Some after_two_waiting"
  by (simp add: two_waiting_def after_two_waiting_def init_def schedule_def run_def invoke_def
      settle_def Let_def)

lemma failure_run:
  "settle 0 (Rejected ''boom'') 0 after_two_waiting = after_failure"
  "drain later_outcomes 2 after_failure = Some after_drain"
  by (simp_all add: after_two_waiting_def after_failure_def after_drain_def later_outcomes_def
      settle_def run_def invoke_def finish_events_def Let_def numeral_2_eq_2)

text \<open>
  Claim C1 (mutual exclusion). In every state that a sequence of events leads to from a
  new Throttler, at most one call has a unit of work that has been started and has not
  settled; and an event that leaves such a unit of work executing starts no unit of work.
  Every state along a run is the state its prefix leads to, so this holds at every point.
\<close>

theorem mutual_exclusion:
  assumes "exec evs (init i c0) = Some s"
  shows "(\<forall>j k. j < length (calls s) \<and> k < length (calls s)
             \<and> calls s ! j = Executing \<and> calls s ! k = Executing \<longrightarrow> j = k)
         \<and> (\<forall>ev s' j. step ev s = Some s' \<and> j < length (calls s)
             \<and> calls s ! j = Executing \<and> calls s' ! j = Executing
             \<longrightarrow> dispatched s' = dispatched s)"
proof (intro conjI allI impI)
  fix j k
  assume "j < length (calls s) \<and> k < length (calls s)
             \<and> calls s ! j = Executing \<and> calls s ! k = Executing"
  then show "j = k" using at_most_one_executing [OF reachable_consistent [OF assms]] by blast
next
  fix ev s' j
  assume a: "step ev s = Some s' \<and> j < length (calls s)
             \<and> calls s ! j = Executing \<and> calls s' ! j = Executing"
  have i: "consistent s" by (rule reachable_consistent [OF assms])
  then have i': "consistent s'" using a consistent_step by blast
  have len: "length (calls s) \<le> length (calls s')"
    using a by (cases ev) (auto simp: schedule_def run_def invoke_def settle_def Let_def
      split: if_splits call.splits list.splits)
  have "length (dispatched s) = Suc j" using executing_is_last [OF i] a by blast
  moreover have "length (dispatched s') = Suc j"
    using executing_is_last [OF i', of j] a len by simp
  moreover have "prefix (dispatched s) (dispatched s')" using a dispatched_step by blast
  ultimately show "dispatched s' = dispatched s" by (auto simp: prefix_def)
qed

theorem mutual_exclusion_witness:
  "exec three_calls (init 100 1000) = Some after_three_calls
   \<and> calls after_three_calls = [Settled (Rejected ''boom''), Settled (Resolved 7), Executing]
   \<and> \<not> (calls after_three_calls ! 1 = Executing \<and> calls after_three_calls ! 2 = Executing)
   \<and> step (Schedule 0) after_three_calls = Some (schedule 0 after_three_calls)
   \<and> calls (schedule 0 after_three_calls) ! 2 = Executing
   \<and> dispatched (schedule 0 after_three_calls) = dispatched after_three_calls"
proof -
  note h = three_calls_run
  have c: "calls after_three_calls = [Settled (Rejected ''boom''), Settled (Resolved 7), Executing]"
    and d: "calls (schedule 0 after_three_calls) ! 2 = Executing"
    by (simp_all add: after_three_calls_def schedule_def Let_def)
  show ?thesis
    using h c d conjunct1 [OF mutual_exclusion [OF h], rule_format, of 1 2]
      conjunct2 [OF mutual_exclusion [OF h], rule_format, of "Schedule 0" "schedule 0 after_three_calls" 2]
    by simp
qed



text \<open>
  Claim C3 (first in, first out). Calls of \<open>schedule\<close> are numbered in the order in which
  they are made. In every reachable state the units of work started so far are those of
  the calls \<open>0, 1, 2, ...\<close> in exactly this order, whatever time passes between the start
  of a unit of work and its settling.
\<close>

theorem fifo_dispatch:
  assumes "exec evs (init i c0) = Some s"
  shows "map fst (dispatched s) = [0..<length (dispatched s)]
         \<and> length (dispatched s) \<le> length (calls s)"
proof -
  have i: "consistent s" by (rule reachable_consistent [OF assms])
  then have "map fst (dispatched s) = [0..<length (dispatched s)]"
    by (simp add: consistent_def log_ok_def)
  moreover have "length (dispatched s) \<le> length (calls s)"
    using i by (auto simp: consistent_def idle_def busy_executing_def busy_sleeping_def)
  ultimately show ?thesis by simp
qed

theorem fifo_dispatch_witness:
  "exec three_calls (init 100 1000) = Some after_three_calls
   \<and> map fst (dispatched after_three_calls) = [0, 1, 2]
   \<and> length (calls after_three_calls) = 3"
  using three_calls_run fifo_dispatch [OF three_calls_run]
  by (simp add: after_three_calls_def)

text \<open>
  Claim C8 (failure isolation). When the unit of work of call \<open>k\<close> is executing and fails
  with \<open>e\<close>, the step is possible and passes exactly \<open>e\<close> to \<open>reject\<close> of call \<open>k\<close>; no
  other call is settled by it; the call at the head of the queue is taken off and its \<open>run\<close>
  started (it executes, or sleeps until the interval is over); the Throttler is left as a
  success of call \<open>k\<close> would leave it, but for the outcome of that call. And the queue is
  drained from there: when the timers fire and the later units of work settle, whether
  they fail or not, every call that waited behind \<open>k\<close> is started, in order, and settles
  with its own outcome.
\<close>

theorem failure_isolation:
  assumes "exec evs (init i c0) = Some s" and "k < length (calls s)"
    and "calls s ! k = Executing"
  shows "step (Settle k (Rejected e) dt) s = Some (settle k (Rejected e) dt s)
    \<and> calls (settle k (Rejected e) dt s) ! k = Settled (Rejected e)
    \<and> (\<forall>j out. j < length (calls s) \<and> j \<noteq> k \<longrightarrow>
          (calls (settle k (Rejected e) dt s) ! j = Settled out) = (calls s ! j = Settled out))
    \<and> (\<forall>q waiting. queue s = q # waiting \<longrightarrow>
          queue (settle k (Rejected e) dt s) = waiting \<and> running (settle k (Rejected e) dt s)
          \<and> (calls (settle k (Rejected e) dt s) ! q = Executing
              \<or> (\<exists>d. calls (settle k (Rejected e) dt s) ! q = Sleeping d)))
    \<and> (queue s = [] \<longrightarrow>
          queue (settle k (Rejected e) dt s) = [] \<and> \<not> running (settle k (Rejected e) dt s))
    \<and> settle k (Rejected e) dt s =
        (settle k (Resolved v) dt s)
          \<lparr>calls := (calls (settle k (Resolved v) dt s))[k := Settled (Rejected e)]\<rparr>
    \<and> (\<exists>s''. drain outs (length (queue s)) (settle k (Rejected e) dt s) = Some s''
          \<and> \<not> running s'' \<and> queue s'' = []
          \<and> map fst (dispatched s'') = [0..<length (calls s)]
          \<and> calls s'' ! k = Settled (Rejected e)
          \<and> (\<forall>j\<in>set (queue s). calls s'' ! j = Settled (outs j)))"
proof -
  have i: "consistent s" by (rule reachable_consistent [OF assms(1)])
  note f = executing_is_last [OF i assms(2,3)]
  let ?s' = "settle k (Rejected e) dt s"
  have enabled: "step (Settle k (Rejected e) dt) s = Some ?s'"
    using assms(2,3) by simp
  have drained: "\<exists>s''. drain outs (length (queue s)) ?s' = Some s''
          \<and> \<not> running s'' \<and> queue s'' = []
          \<and> map fst (dispatched s'') = [0..<length (calls s)]
          \<and> calls s'' ! k = Settled (Rejected e)
          \<and> (\<forall>j\<in>set (queue s). calls s'' ! j = Settled (outs j))"
  proof -
    note g = settle_executing [OF i assms(2,3), of "Rejected e" dt]
    have queued: "\<forall>j\<in>set (queue s). j < length (calls s) \<and> j \<noteq> k
        \<and> (\<forall>o'. calls ?s' ! j \<noteq> Settled o')"
    proof
      fix j
      assume "j \<in> set (queue s)"
      then have j: "Suc k \<le> j" "j < length (calls s)" using f by auto
      then have "calls s ! j = Queued" using f by (simp add: queued_from_def)
      then show "j < length (calls s) \<and> j \<noteq> k \<and> (\<forall>o'. calls ?s' ! j \<noteq> Settled o')"
        using j g by simp
    qed
    have "\<exists>s''. drain outs (length (queue s)) ?s' = Some s'' \<and> consistent s'' \<and> \<not> running s''
        \<and> length (calls s'') = length (calls s)
        \<and> (\<forall>j<length (calls s).
            (\<forall>o'. calls ?s' ! j = Settled o' \<longrightarrow> calls s'' ! j = Settled o')
            \<and> ((\<forall>o'. calls ?s' ! j \<noteq> Settled o') \<longrightarrow> calls s'' ! j = Settled (outs j)))"
    proof (cases "queue s")
      case Nil
      then have "\<forall>j<length (calls s). \<exists>o'. calls ?s' ! j = Settled o'"
        using g idle_all_settled [of ?s'] by simp
      then show ?thesis using g Nil by simp
    next
      case (Cons q waiting)
      then have "running ?s'" and "length (queue ?s') = length waiting" using g by simp_all
      from drain_all [OF _ this, of outs] show ?thesis using g Cons by simp
    qed
    then obtain s'' where s'': "drain outs (length (queue s)) ?s' = Some s''" "consistent s''"
      "\<not> running s''" "length (calls s'') = length (calls s)"
      "\<forall>j<length (calls s).
            (\<forall>o'. calls ?s' ! j = Settled o' \<longrightarrow> calls s'' ! j = Settled o')
            \<and> ((\<forall>o'. calls ?s' ! j \<noteq> Settled o') \<longrightarrow> calls s'' ! j = Settled (outs j))"
      by blast
    have "idle s''" and "log_ok s''"
      using s''(2,3) by (auto simp: consistent_def busy_executing_def busy_sleeping_def)
    then have "queue s'' = []" and "map fst (dispatched s'') = [0..<length (calls s)]"
      using s''(4) by (simp_all add: idle_def log_ok_def)
    moreover have "calls s'' ! k = Settled (Rejected e)" using s''(5) g assms(2) by simp
    moreover have "\<forall>j\<in>set (queue s). calls s'' ! j = Settled (outs j)"
      using queued s''(5) by blast
    ultimately show ?thesis using s''(1,3) by blast
  qed
  show ?thesis
  proof (cases "queue s")
    case Nil
    then show ?thesis
      using enabled assms(2) drained by (simp add: settle_last)
  next
    case (Cons q waiting)
    then have q: "q = Suc k" and ql: "q < length (calls s)" and qq: "calls s ! q = Queued"
      using f by (auto simp: upt_eq_Cons_conv queued_from_def)
    let ?t = "\<lambda>out. s\<lparr>calls := (calls s)[k := Settled out], queue := waiting, running := True\<rparr>"
    have st: "settle k out dt s = run q dt (?t out)" for out
      using Cons by (simp add: settle_next)
    have wait_same: "(0 < lastTime (?t out) + interval (?t out) - clock (?t out))
        = (0 < lastTime s + interval s - clock s)" for out by simp
    show ?thesis
    proof (cases "0 < lastTime s + interval s - clock s")
      case True
      then have r: "settle k out dt s =
          s\<lparr>calls := (calls s)[k := Settled out, q := Sleeping (lastTime s + interval s)],
            queue := waiting, running := True\<rparr>" for out
        unfolding st by (simp add: run_def Let_def)
      have "step (Settle k (Rejected e) dt) s = Some ?s'
        \<and> calls ?s' ! k = Settled (Rejected e)
        \<and> (\<forall>j out. j < length (calls s) \<and> j \<noteq> k \<longrightarrow>
              (calls ?s' ! j = Settled out) = (calls s ! j = Settled out))
        \<and> (\<forall>q waiting. queue s = q # waiting \<longrightarrow>
              queue ?s' = waiting \<and> running ?s'
              \<and> (calls ?s' ! q = Executing \<or> (\<exists>d. calls ?s' ! q = Sleeping d)))
        \<and> (queue s = [] \<longrightarrow> queue ?s' = [] \<and> \<not> running ?s')
        \<and> ?s' = (settle k (Resolved v) dt s)
              \<lparr>calls := (calls (settle k (Resolved v) dt s))[k := Settled (Rejected e)]\<rparr>"
        using enabled Cons q ql qq assms(2) unfolding r
        by (auto simp: nth_list_update list_update_swap)
      then show ?thesis using drained by blast
    next
      case False
      then have r: "settle k out dt s =
          s\<lparr>calls := (calls s)[k := Settled out, q := Executing],
            queue := waiting, running := True,
            clock := clock s + int dt, lastTime := clock s + int dt,
            dispatched := dispatched s @ [(q, clock s + int dt)]\<rparr>" for out
        unfolding st by (simp add: run_def invoke_def Let_def)
      have "step (Settle k (Rejected e) dt) s = Some ?s'
        \<and> calls ?s' ! k = Settled (Rejected e)
        \<and> (\<forall>j out. j < length (calls s) \<and> j \<noteq> k \<longrightarrow>
              (calls ?s' ! j = Settled out) = (calls s ! j = Settled out))
        \<and> (\<forall>q waiting. queue s = q # waiting \<longrightarrow>
              queue ?s' = waiting \<and> running ?s'
              \<and> (calls ?s' ! q = Executing \<or> (\<exists>d. calls ?s' ! q = Sleeping d)))
        \<and> (queue s = [] \<longrightarrow> queue ?s' = [] \<and> \<not> running ?s')
        \<and> ?s' = (settle k (Resolved v) dt s)
              \<lparr>calls := (calls (settle k (Resolved v) dt s))[k := Settled (Rejected e)]\<rparr>"
        using enabled Cons q ql qq assms(2) unfolding r
        by (auto simp: nth_list_update list_update_swap)
      then show ?thesis using drained by blast
    qed
  qed
qed

theorem failure_isolation_witness:
  "exec two_waiting (init 100 1000) = Some after_two_waiting
   \<and> calls after_two_waiting = [Executing, Queued, Queued]
   \<and> queue after_two_waiting = [1, 2]
   \<and> step (Settle 0 (Rejected ''boom'') 0) after_two_waiting = Some after_failure
   \<and> calls after_failure = [Settled (Rejected ''boom''), Executing, Queued]
   \<and> queue after_failure = [2]
   \<and> drain later_outcomes 2 after_failure = Some after_drain
   \<and> calls after_drain =
       [Settled (Rejected ''boom''), Settled (Rejected ''late''), Settled (Resolved 2)]
   \<and> map fst (dispatched after_drain) = [0, 1, 2]"
proof -
  have c: "calls after_two_waiting = [Executing, Queued, Queued]"
    "queue after_two_waiting = [1, 2]"
    "calls after_failure = [Settled (Rejected ''boom''), Executing, Queued]"
    "queue after_failure = [2]"
    "calls after_drain =
       [Settled (Rejected ''boom''), Settled (Rejected ''late''), Settled (Resolved 2)]"
    "map fst (dispatched after_drain) = [0, 1, 2]"
    by (simp_all add: after_two_waiting_def after_failure_def after_drain_def)
  have k: "0 < length (calls after_two_waiting)" "calls after_two_waiting ! 0 = Executing"
    using c by simp_all
  show ?thesis
    using failure_isolation [OF two_waiting_run k, of "''boom''" 0 7 later_outcomes]
      two_waiting_run c failure_run
    by simp
qed

end
